theory Spec2Isabelle
  imports Main
begin

section \<open>Python strings\<close>

text \<open>
  A Python \<^verbatim>\<open>str\<close> is a sequence of Unicode code points, and \<^verbatim>\<open>len\<close>,
  indexing, \<^verbatim>\<open>in\<close> and the \<^verbatim>\<open>re\<close> module all work on code points. A string is
  therefore modelled as a list of code points (natural numbers); \<open>asc\<close> embeds an
  ASCII literal. The Bengali literals of \<^verbatim>\<open>app.py\<close> are written by their code points.
\<close>

type_synonym ustring = "nat list"

definition asc :: "string \<Rightarrow> ustring" where
  "asc s = map of_char s"

subsection \<open>DigitNormalizer: \<^verbatim>\<open>bengali_to_english_digits\<close>\<close>

text \<open>\<^verbatim>\<open>bengali_digits\<close> is the literal of U+09E6 .. U+09EF (BENGALI DIGIT ZERO .. NINE).\<close>

definition bengali_digits :: ustring where
  "bengali_digits = [0x9E6, 0x9E7, 0x9E8, 0x9E9, 0x9EA, 0x9EB, 0x9EC, 0x9ED, 0x9EE, 0x9EF]"

definition english_digits :: ustring where
  "english_digits = asc ''0123456789''"

text \<open>
  \<^verbatim>\<open>str.maketrans(x, y)\<close> builds the dictionary that sends \<^verbatim>\<open>x[k]\<close> to \<^verbatim>\<open>y[k]\<close>
  (the two arguments here have equal length, so it does not raise), and
  \<^verbatim>\<open>str.translate\<close> replaces every character that is a key of the table and keeps
  every other one.
\<close>

definition maketrans :: "ustring \<Rightarrow> ustring \<Rightarrow> (nat \<times> nat) list" where
  "maketrans x y = zip x y"

definition translate :: "(nat \<times> nat) list \<Rightarrow> ustring \<Rightarrow> ustring" where
  "translate table text = map (\<lambda>c. case map_of table c of Some d \<Rightarrow> d | None \<Rightarrow> c) text"

definition bengali_to_english_digits :: "ustring \<Rightarrow> ustring" where
  "bengali_to_english_digits text =
     (let translation_table = maketrans bengali_digits english_digits
      in translate translation_table text)"

definition is_bengali_digit :: "nat \<Rightarrow> bool" where
  "is_bengali_digit c \<longleftrightarrow> 0x9E6 \<le> c \<and> c \<le> 0x9EF"

subsection \<open>Character classes and string methods\<close>

text \<open>
  \<^verbatim>\<open>str.strip()\<close> without argument and the regex class \<^verbatim>\<open>\s\<close> on a \<^verbatim>\<open>str\<close> pattern
  both use Python's Unicode whitespace test (\<^verbatim>\<open>str.isspace\<close>); these are the code
  points it accepts.
\<close>

definition whitespace :: "nat list" where
  "whitespace = [0x9, 0xA, 0xB, 0xC, 0xD, 0x1C, 0x1D, 0x1E, 0x1F, 0x20, 0x85, 0xA0, 0x1680,
     0x2000, 0x2001, 0x2002, 0x2003, 0x2004, 0x2005, 0x2006, 0x2007, 0x2008, 0x2009, 0x200A,
     0x2028, 0x2029, 0x202F, 0x205F, 0x3000]"

definition is_space :: "nat \<Rightarrow> bool" where
  "is_space c \<longleftrightarrow> c \<in> set whitespace"

text \<open>
  The regex class \<^verbatim>\<open>\d\<close> on a \<^verbatim>\<open>str\<close> pattern (no \<^verbatim>\<open>re.ASCII\<close> flag is used in
  \<^verbatim>\<open>app.py\<close>) matches every Unicode decimal digit (general category Nd), not only
  \<^verbatim>\<open>0-9\<close>: the ranges below are those of Unicode 14 (ASCII, Arabic-Indic, Devanagari,
  Bengali, ..., fullwidth, mathematical digits, ...).
\<close>

definition decimal_ranges :: "(nat \<times> nat) list" where
  "decimal_ranges = [(0x30, 0x39), (0x660, 0x669), (0x6F0, 0x6F9), (0x7C0, 0x7C9),
     (0x966, 0x96F), (0x9E6, 0x9EF), (0xA66, 0xA6F), (0xAE6, 0xAEF), (0xB66, 0xB6F),
     (0xBE6, 0xBEF), (0xC66, 0xC6F), (0xCE6, 0xCEF), (0xD66, 0xD6F), (0xDE6, 0xDEF),
     (0xE50, 0xE59), (0xED0, 0xED9), (0xF20, 0xF29), (0x1040, 0x1049), (0x1090, 0x1099),
     (0x17E0, 0x17E9), (0x1810, 0x1819), (0x1946, 0x194F), (0x19D0, 0x19D9),
     (0x1A80, 0x1A89), (0x1A90, 0x1A99), (0x1B50, 0x1B59), (0x1BB0, 0x1BB9),
     (0x1C40, 0x1C49), (0x1C50, 0x1C59), (0xA620, 0xA629), (0xA8D0, 0xA8D9),
     (0xA900, 0xA909), (0xA9D0, 0xA9D9), (0xA9F0, 0xA9F9), (0xAA50, 0xAA59),
     (0xABF0, 0xABF9), (0xFF10, 0xFF19), (0x104A0, 0x104A9), (0x10D30, 0x10D39),
     (0x11066, 0x1106F), (0x110F0, 0x110F9), (0x11136, 0x1113F), (0x111D0, 0x111D9),
     (0x112F0, 0x112F9), (0x11450, 0x11459), (0x114D0, 0x114D9), (0x11650, 0x11659),
     (0x116C0, 0x116C9), (0x11730, 0x11739), (0x118E0, 0x118E9), (0x11950, 0x11959),
     (0x11C50, 0x11C59), (0x11D50, 0x11D59), (0x11DA0, 0x11DA9), (0x16A60, 0x16A69),
     (0x16AC0, 0x16AC9), (0x16B50, 0x16B59), (0x1D7CE, 0x1D7FF), (0x1E140, 0x1E149),
     (0x1E2F0, 0x1E2F9), (0x1E950, 0x1E959), (0x1FBF0, 0x1FBF9)]"

definition is_decimal :: "nat \<Rightarrow> bool" where
  "is_decimal c \<longleftrightarrow> list_ex (\<lambda>(lo, hi). lo \<le> c \<and> c \<le> hi) decimal_ranges"

text \<open>
  Case folding for \<^verbatim>\<open>re.IGNORECASE\<close>. The only cased characters in the patterns of
  \<^verbatim>\<open>app.py\<close> are the letters n, a, m, e, and the only characters Python's matcher
  identifies with them are N, A, M, E; so lower-casing the ASCII capitals is all that
  these patterns can observe.
\<close>

definition to_lower :: "nat \<Rightarrow> nat" where
  "to_lower c = (if 0x41 \<le> c \<and> c \<le> 0x5A then c + 32 else c)"

text \<open>\<^verbatim>\<open>s.strip()\<close>: leading and trailing whitespace removed.\<close>

definition strip :: "ustring \<Rightarrow> ustring" where
  "strip s = rev (dropWhile is_space (rev (dropWhile is_space s)))"

text \<open>\<^verbatim>\<open>s.split(sep)\<close> for a one-character separator; the result is never empty.\<close>

fun split_on :: "nat \<Rightarrow> ustring \<Rightarrow> ustring list" where
  "split_on sep [] = [[]]"
| "split_on sep (c # cs) =
     (if c = sep then [] # split_on sep cs
      else (case split_on sep cs of [] \<Rightarrow> [[c]] | p # ps \<Rightarrow> (c # p) # ps))"

text \<open>\<^verbatim>\<open>sep.join(xs)\<close>.\<close>

fun join :: "ustring \<Rightarrow> ustring list \<Rightarrow> ustring" where
  "join sep [] = []"
| "join sep [x] = x"
| "join sep (x # y # ys) = x @ sep @ join sep (y # ys)"

text \<open>\<^verbatim>\<open>k in s\<close> for strings: \<open>k\<close> occurs in \<open>s\<close> as a contiguous substring.\<close>

fun starts_with :: "ustring \<Rightarrow> ustring \<Rightarrow> bool" where
  "starts_with [] s = True"
| "starts_with (k # ks) [] = False"
| "starts_with (k # ks) (c # cs) = (k = c \<and> starts_with ks cs)"

fun contains :: "ustring \<Rightarrow> ustring \<Rightarrow> bool" where
  "contains k [] = (k = [])"
| "contains k (c # cs) = (starts_with k (c # cs) \<or> contains k cs)"

definition newline :: ustring where
  "newline = [0xA]"

subsection \<open>The fragment of \<^verbatim>\<open>re\<close> that the program uses\<close>

text \<open>
  The patterns of \<^verbatim>\<open>app.py\<close> are built from literal characters, the classes
  \<^verbatim>\<open>\d\<close>, \<^verbatim>\<open>\s\<close> and \<^verbatim>\<open>[..]\<close>, greedy repetition of a single character or class
  (\<^verbatim>\<open>*\<close>, \<^verbatim>\<open>+\<close>, \<^verbatim>\<open>?\<close>, \<^verbatim>\<open>{n}\<close>), sequencing, alternation, one capturing group and
  the anchor \<^verbatim>\<open>^\<close>. \<open>Rep a lo hi\<close> is the greedy repetition of \<open>a\<close> between \<open>lo\<close> and
  \<open>hi\<close> times (\<open>None\<close>: unbounded).
\<close>

datatype atom = Lit nat | Digit | Space | OneOf "nat list"

datatype regex =
    Atom atom
  | Rep atom nat "nat option"
  | Seq regex regex
  | Alt regex regex
  | Group regex
  | Bol
  | Eps

fun atom_ok :: "bool \<Rightarrow> atom \<Rightarrow> nat \<Rightarrow> bool" where
  "atom_ok ic (Lit p) c = (c = p \<or> (ic \<and> to_lower c = to_lower p))"
| "atom_ok ic Digit c = is_decimal c"
| "atom_ok ic Space c = is_space c"
| "atom_ok ic (OneOf ps) c = (c \<in> set ps)"

text \<open>A literal string as a pattern.\<close>

fun lit :: "ustring \<Rightarrow> regex" where
  "lit [] = Eps"
| "lit (c # cs) = Seq (Atom (Lit c)) (lit cs)"

text \<open>
  \<open>rmatch ic r pos s cap\<close> lists, in the order in which Python's backtracking matcher
  tries them, the ways pattern \<open>r\<close> can match at the front of \<open>s\<close>, where \<open>s\<close> is the
  rest of the subject from position \<open>pos\<close> on: each is the number of characters
  consumed with the content of group 1 (\<open>None\<close>: the group did not take part).
  \<open>ic\<close> is the flag \<^verbatim>\<open>re.IGNORECASE\<close>. A greedy repetition tries the longest run
  first; an alternation tries its left branch first, and a branch that fails leaves
  no capture behind.
\<close>

fun rmatch :: "bool \<Rightarrow> regex \<Rightarrow> nat \<Rightarrow> ustring \<Rightarrow> ustring option \<Rightarrow> (nat \<times> ustring option) list" where
  "rmatch ic (Atom a) pos s cap =
     (case s of [] \<Rightarrow> [] | c # _ \<Rightarrow> if atom_ok ic a c then [(1, cap)] else [])"
| "rmatch ic (Rep a lo hi) pos s cap =
     (let k = length (takeWhile (atom_ok ic a) s);
          m = (case hi of None \<Rightarrow> k | Some h \<Rightarrow> min k h)
      in map (\<lambda>j. (j, cap)) (rev [lo ..< Suc m]))"
| "rmatch ic (Seq r1 r2) pos s cap =
     concat (map (\<lambda>(n1, c1). map (\<lambda>(n2, c2). (n1 + n2, c2)) (rmatch ic r2 (pos + n1) (drop n1 s) c1))
                 (rmatch ic r1 pos s cap))"
| "rmatch ic (Alt r1 r2) pos s cap = rmatch ic r1 pos s cap @ rmatch ic r2 pos s cap"
| "rmatch ic (Group r) pos s cap = map (\<lambda>(n, _). (n, Some (take n s))) (rmatch ic r pos s cap)"
| "rmatch ic Bol pos s cap = (if pos = 0 then [(0, cap)] else [])"
| "rmatch ic Eps pos s cap = [(0, cap)]"

text \<open>
  The results of a sequence, written as a recursion over the results of its first
  part; \<open>rmatch_Seq_eval\<close> below shows that this is what \<open>rmatch\<close> computes.
\<close>

fun seq_results ::
  "bool \<Rightarrow> regex \<Rightarrow> nat \<Rightarrow> ustring \<Rightarrow> (nat \<times> ustring option) list \<Rightarrow> (nat \<times> ustring option) list" where
  "seq_results ic r2 pos s [] = []"
| "seq_results ic r2 pos s ((n1, c1) # rest) =
     map (\<lambda>(n2, c2). (n1 + n2, c2)) (rmatch ic r2 (pos + n1) (drop n1 s) c1)
     @ seq_results ic r2 pos s rest"

text \<open>
  A match object: where the match starts, how long it is, and group 1.
  \<^verbatim>\<open>re.search\<close> takes the leftmost position at which the pattern matches and, there,
  the first way the matcher finds; \<^verbatim>\<open>re.match\<close> only tries position 0.
\<close>

record match =
  m_start :: nat
  m_len :: nat
  group1 :: "ustring option"

fun search_from :: "bool \<Rightarrow> regex \<Rightarrow> nat \<Rightarrow> ustring \<Rightarrow> match option" where
  "search_from ic r pos [] =
     (case rmatch ic r pos [] None of [] \<Rightarrow> None
      | (n, cap) # _ \<Rightarrow> Some \<lparr>m_start = pos, m_len = n, group1 = cap\<rparr>)"
| "search_from ic r pos (c # cs) =
     (case rmatch ic r pos (c # cs) None of [] \<Rightarrow> search_from ic r (Suc pos) cs
      | (n, cap) # _ \<Rightarrow> Some \<lparr>m_start = pos, m_len = n, group1 = cap\<rparr>)"

definition re_search :: "bool \<Rightarrow> regex \<Rightarrow> ustring \<Rightarrow> match option" where
  "re_search ic r s = search_from ic r 0 s"

definition re_match :: "bool \<Rightarrow> regex \<Rightarrow> ustring \<Rightarrow> match option" where
  "re_match ic r s =
     (case rmatch ic r 0 s None of [] \<Rightarrow> None
      | (n, cap) # _ \<Rightarrow> Some \<lparr>m_start = 0, m_len = n, group1 = cap\<rparr>)"

text \<open>
  \<^verbatim>\<open>re.sub(pattern, repl, s)\<close> with a constant replacement, and \<^verbatim>\<open>re.split(pattern, s)\<close>
  for a pattern without group: the non-overlapping matches are taken from left to
  right. No pattern that \<^verbatim>\<open>app.py\<close> passes to them can match the empty string; on an
  empty match the model moves on by one character.
\<close>

fun sub_from :: "bool \<Rightarrow> regex \<Rightarrow> ustring \<Rightarrow> nat \<Rightarrow> ustring \<Rightarrow> ustring" where
  "sub_from ic r repl pos [] = (case rmatch ic r pos [] None of [] \<Rightarrow> [] | _ # _ \<Rightarrow> repl)"
| "sub_from ic r repl pos (c # cs) =
     (case rmatch ic r pos (c # cs) None of
        [] \<Rightarrow> c # sub_from ic r repl (Suc pos) cs
      | (n, _) # _ \<Rightarrow>
          if n = 0 then repl @ c # sub_from ic r repl (Suc pos) cs
          else repl @ sub_from ic r repl (pos + n) (drop (n - 1) cs))"

definition re_sub :: "bool \<Rightarrow> regex \<Rightarrow> ustring \<Rightarrow> ustring \<Rightarrow> ustring" where
  "re_sub ic r repl s = sub_from ic r repl 0 s"

fun split_from :: "bool \<Rightarrow> regex \<Rightarrow> nat \<Rightarrow> ustring \<Rightarrow> ustring list" where
  "split_from ic r pos [] = [[]]"
| "split_from ic r pos (c # cs) =
     (case rmatch ic r pos (c # cs) None of
        (n, _) # _ \<Rightarrow>
          if n = 0 then (case split_from ic r (Suc pos) cs of [] \<Rightarrow> [[c]] | p # ps \<Rightarrow> (c # p) # ps)
          else [] # split_from ic r (pos + n) (drop (n - 1) cs)
      | [] \<Rightarrow> (case split_from ic r (Suc pos) cs of [] \<Rightarrow> [[c]] | p # ps \<Rightarrow> (c # p) # ps))"

definition re_split :: "bool \<Rightarrow> regex \<Rightarrow> ustring \<Rightarrow> ustring list" where
  "re_split ic r s = split_from ic r 0 s"

section \<open>The program \<^verbatim>\<open>app.py\<close>\<close>

subsection \<open>\<^verbatim>\<open>extract_phone_number\<close>\<close>

text \<open>
  The list \<^verbatim>\<open>phone_patterns\<close>, in the order of the source:
  \<^verbatim>\<open>(\d{11})\<close> first, then \<^verbatim>\<open>\+88(\d{11})\<close>.
\<close>

definition phone_patterns :: "regex list" where
  "phone_patterns =
     [Group (Rep Digit 11 (Some 11)),
      Seq (lit (asc ''+88'')) (Group (Rep Digit 11 (Some 11)))]"

text \<open>
  The loop \<^verbatim>\<open>for pattern in phone_patterns\<close>: the first pattern that is found
  anywhere in the line returns its group 1; \<open>None\<close> is Python's \<^verbatim>\<open>None\<close>.
\<close>

fun first_pattern_match :: "regex list \<Rightarrow> ustring \<Rightarrow> ustring option" where
  "first_pattern_match [] english_line = None"
| "first_pattern_match (pattern # patterns) english_line =
     (case re_search False pattern english_line of
        Some m \<Rightarrow> group1 m
      | None \<Rightarrow> first_pattern_match patterns english_line)"

definition extract_phone_number :: "ustring \<Rightarrow> ustring option" where
  "extract_phone_number line =
     (let english_line = bengali_to_english_digits line
      in first_pattern_match phone_patterns english_line)"

subsection \<open>\<^verbatim>\<open>extract_amount\<close>\<close>

text \<open>
  \<^verbatim>\<open>amount_pattern\<close> is \<^verbatim>\<open>(\d+)\s*XXXX|Taka\<close>, where XXXX stands for the Bengali
  word U+099F U+09BE U+0995 U+09BE (``taka''). Alternation binds weakest, so the
  pattern is read as the alternative of \<^verbatim>\<open>(\d+)\s*XXXX\<close> and of the bare word
  \<^verbatim>\<open>Taka\<close>. A match object is always true in Python, so \<^verbatim>\<open>if match\<close> only asks
  whether the search found something.
\<close>

definition taka_bn :: ustring where
  "taka_bn = [0x99F, 0x9BE, 0x995, 0x9BE]"

definition amount_pattern :: regex where
  "amount_pattern =
     Alt (Seq (Group (Rep Digit 1 None)) (Seq (Rep Space 0 None) (lit taka_bn)))
         (lit (asc ''Taka''))"

definition extract_amount :: "ustring \<Rightarrow> ustring option" where
  "extract_amount note_text =
     (let text = bengali_to_english_digits note_text
      in case re_search False amount_pattern text of
           Some m \<Rightarrow> group1 m
         | None \<Rightarrow>
             (case re_search False (Group (Rep Digit 1 None)) text of
                Some number_match \<Rightarrow> group1 number_match
              | None \<Rightarrow> None))"

subsection \<open>\<^verbatim>\<open>extract_customer_blocks\<close>\<close>

text \<open>
  Bengali literals: \<open>nam_bn\<close> is U+09A8 U+09BE U+09AE (``name''), \<open>apnar_nam_bn\<close> is
  U+0986 U+09AA U+09A8 U+09BE U+09B0 U+0020 U+09A8 U+09BE U+09AE (``your name'').
  \<open>name_start\<close> is the pattern \<^verbatim>\<open>^(nam_bn|name|nam|apnar_nam_bn)\<close> of line 73.
\<close>

definition nam_bn :: ustring where
  "nam_bn = [0x9A8, 0x9BE, 0x9AE]"

definition apnar_nam_bn :: ustring where
  "apnar_nam_bn = [0x986, 0x9AA, 0x9A8, 0x9BE, 0x9B0, 0x20, 0x9A8, 0x9BE, 0x9AE]"

definition name_start :: regex where
  "name_start =
     Seq Bol (Group (Alt (lit nam_bn) (Alt (lit (asc ''name'')) (Alt (lit (asc ''nam'')) (lit apnar_nam_bn)))))"

text \<open>\<^verbatim>\<open>[line.strip() for line in block.split('\n') if line.strip()]\<close>\<close>

definition clean_lines :: "ustring \<Rightarrow> ustring list" where
  "clean_lines block = map strip (filter (\<lambda>line. strip line \<noteq> []) (split_on 0xA block))"

text \<open>\<^verbatim>\<open>any(re.match(name_start, line, re.IGNORECASE) for line in lines[:2])\<close>\<close>

definition starts_with_name :: "ustring list \<Rightarrow> bool" where
  "starts_with_name lines = list_ex (\<lambda>line. re_match True name_start line \<noteq> None) (take 2 lines)"

text \<open>
  The loop \<^verbatim>\<open>for block in blocks\<close>; its state is the pair of \<^verbatim>\<open>customer_blocks\<close> and
  \<^verbatim>\<open>current_block\<close>.
\<close>

fun merge_blocks :: "ustring list \<Rightarrow> ustring list \<times> ustring list \<Rightarrow> ustring list \<times> ustring list" where
  "merge_blocks [] (customer_blocks, current_block) = (customer_blocks, current_block)"
| "merge_blocks (block # blocks) (customer_blocks, current_block) =
     (let lines = clean_lines block in
      if lines = [] then merge_blocks blocks (customer_blocks, current_block)
      else if starts_with_name lines \<and> current_block \<noteq> []
        then merge_blocks blocks (customer_blocks @ [join newline current_block], lines)
      else if current_block \<noteq> []
        then merge_blocks blocks (customer_blocks, current_block @ lines)
      else merge_blocks blocks (customer_blocks, lines))"

text \<open>The three normalising substitutions and the split of lines 54 to 59.\<close>

definition split_blocks :: "ustring \<Rightarrow> ustring list" where
  "split_blocks input_text =
     (let normalized_text = re_sub False (lit [0xD, 0xA]) newline input_text;
          normalized_text = re_sub False (lit [0xD]) newline normalized_text;
          normalized_text =
            re_sub False
              (Seq (Atom (Lit 0xA)) (Seq (Rep Space 0 None)
                 (Seq (Atom (Lit 0xA)) (Seq (Rep Space 0 None) (Rep (Lit 0xA) 1 None)))))
              (newline @ newline) normalized_text
      in re_split False (Seq (Atom (Lit 0xA)) (Seq (Rep Space 0 None) (Atom (Lit 0xA))))
           (strip normalized_text))"

definition extract_customer_blocks :: "ustring \<Rightarrow> ustring list" where
  "extract_customer_blocks input_text =
     (let blocks = split_blocks input_text;
          (customer_blocks, current_block) = merge_blocks blocks ([], []);
          customer_blocks =
            (if current_block \<noteq> [] then customer_blocks @ [join newline current_block]
             else customer_blocks)
      in if customer_blocks = [] \<and> strip input_text \<noteq> [] then [strip input_text]
         else customer_blocks)"

subsection \<open>\<^verbatim>\<open>process_customer_block\<close>\<close>

text \<open>
  Keyword literals. Name keywords: \<open>nam_bn\<close>, \<^verbatim>\<open>name\<close>, \<^verbatim>\<open>nam\<close>. Address keywords:
  U+099C U+09C7 U+09B2 U+09BE (district), U+09A5 U+09BE U+09A8 U+09BE (thana),
  U+098F U+09B2 U+09BE U+0995 U+09BE (area), U+09A0 U+09BF U+0995 U+09BE U+09A8 U+09BE
  (address), the area word followed by U+09B0, a space and \<open>nam_bn\<close> (name of the area),
  \<^verbatim>\<open>address\<close>, \<^verbatim>\<open>area\<close>. Order keywords: U+0985 U+09B0 U+09CD U+09A1 U+09BE U+09B0,
  U+0985 U+09A1 U+09BE U+09B0 (two spellings of ``order'') and \<^verbatim>\<open>order\<close>.
  All are tested with \<^verbatim>\<open>keyword in line\<close>.
\<close>

definition name_keywords :: "ustring list" where
  "name_keywords = [nam_bn, asc ''name'', asc ''nam'']"

definition address_keywords :: "ustring list" where
  "address_keywords =
     [[0x99C, 0x9C7, 0x9B2, 0x9BE],
      [0x9A5, 0x9BE, 0x9A8, 0x9BE],
      [0x98F, 0x9B2, 0x9BE, 0x995, 0x9BE],
      [0x9A0, 0x9BF, 0x995, 0x9BE, 0x9A8, 0x9BE],
      [0x98F, 0x9B2, 0x9BE, 0x995, 0x9BE, 0x9B0, 0x20, 0x9A8, 0x9BE, 0x9AE],
      asc ''address'', asc ''area'']"

definition order_bn :: ustring where
  "order_bn = [0x985, 0x9B0, 0x9CD, 0x9A1, 0x9BE, 0x9B0]"

definition odar_bn :: ustring where
  "odar_bn = [0x985, 0x9A1, 0x9BE, 0x9B0]"

definition order_keywords :: "ustring list" where
  "order_keywords = [order_bn, odar_bn, asc ''order'']"

definition has_keyword :: "ustring list \<Rightarrow> ustring \<Rightarrow> bool" where
  "has_keyword keywords line = list_ex (\<lambda>keyword. contains keyword line) keywords"

text \<open>The pattern \<^verbatim>\<open>^(nam_bn|apnar_nam_bn|name|nam)\s*[:FULLWIDTH-COLON]?\s*\<close> of line 117.\<close>

definition name_prefix :: regex where
  "name_prefix =
     Seq Bol
       (Seq (Group (Alt (lit nam_bn) (Alt (lit apnar_nam_bn) (Alt (lit (asc ''name'')) (lit (asc ''nam''))))))
         (Seq (Rep Space 0 None) (Seq (Rep (OneOf [0x3A, 0xFF1A]) 0 (Some 1)) (Rep Space 0 None))))"

text \<open>The local variables of the loop over the lines.\<close>

record fields =
  st_name :: ustring
  st_phone :: ustring
  st_address_lines :: "ustring list"
  st_note :: ustring
  st_amount :: "ustring option"

text \<open>
  The inner loop \<^verbatim>\<open>for j in range(i+1, len(lines))\<close>: the first later line that is
  not empty after stripping, stripped.
\<close>

fun next_nonempty :: "ustring list \<Rightarrow> ustring option" where
  "next_nonempty [] = None"
| "next_nonempty (l # ls) = (if strip l \<noteq> [] then Some (strip l) else next_nonempty ls)"

text \<open>
  One turn of the loop body for a non-empty stripped \<open>line\<close> at index \<open>i\<close>; \<open>rest\<close> are
  the lines after it. The four steps are those of lines 116 to 137, in that order.
\<close>

definition set_name :: "nat \<Rightarrow> ustring \<Rightarrow> fields \<Rightarrow> fields" where
  "set_name i line st =
     (if st_name st = [] \<and> (i = 0 \<or> has_keyword name_keywords line)
      then st\<lparr>st_name := strip (re_sub True name_prefix [] line)\<rparr> else st)"

definition set_phone :: "ustring \<Rightarrow> fields \<Rightarrow> fields" where
  "set_phone line st =
     (if st_phone st = [] then
        (case extract_phone_number line of
           Some extracted_phone \<Rightarrow>
             if extracted_phone \<noteq> [] then st\<lparr>st_phone := extracted_phone\<rparr> else st
         | None \<Rightarrow> st)
      else st)"

definition add_address :: "ustring \<Rightarrow> fields \<Rightarrow> fields" where
  "add_address line st =
     (if has_keyword address_keywords line \<and> \<not> has_keyword order_keywords line
      then st\<lparr>st_address_lines := st_address_lines st @ [line]\<rparr> else st)"

definition set_note :: "ustring \<Rightarrow> ustring list \<Rightarrow> fields \<Rightarrow> fields" where
  "set_note line rest st =
     (if contains order_bn line \<or> contains (asc ''order'') line \<or> contains odar_bn line then
        (case next_nonempty rest of
           Some n \<Rightarrow> st\<lparr>st_note := n, st_amount := extract_amount n\<rparr>
         | None \<Rightarrow> st)
      else st)"

fun scan_lines :: "nat \<Rightarrow> ustring list \<Rightarrow> fields \<Rightarrow> fields" where
  "scan_lines i [] st = st"
| "scan_lines i (l # rest) st =
     (let line = strip l in
      if line = [] then scan_lines (Suc i) rest st
      else scan_lines (Suc i) rest
             (set_note line rest (add_address line (set_phone line (set_name i line st)))))"

text \<open>
  The returned dictionary. \<^verbatim>\<open>Amount\<close> holds whatever \<^verbatim>\<open>extract_amount\<close> returned,
  which can be \<^verbatim>\<open>None\<close>; the other values are always strings.
\<close>

record customer =
  Name :: ustring
  Address :: ustring
  Phone :: ustring
  Amount :: "ustring option"
  Note :: ustring
  Delivery_Type :: ustring

definition initial_fields :: fields where
  "initial_fields = \<lparr>st_name = [], st_phone = [], st_address_lines = [], st_note = [], st_amount = Some []\<rparr>"

definition block_lines :: "ustring \<Rightarrow> ustring list" where
  "block_lines block_text = split_on 0xA (strip block_text)"

definition process_customer_block :: "ustring \<Rightarrow> customer" where
  "process_customer_block block_text =
     (let lines = block_lines block_text;
          st = scan_lines 0 lines initial_fields;
          address = join newline (st_address_lines st)
      in \<lparr>Name = st_name st, Address = address, Phone = st_phone st, Amount = st_amount st,
          Note = st_note st, Delivery_Type = asc ''Home''\<rparr>)"

subsection \<open>\<^verbatim>\<open>validate_data\<close>\<close>

text \<open>
  \<^verbatim>\<open>not x\<close> holds for the empty string and for \<^verbatim>\<open>None\<close>; \<^verbatim>\<open>len\<close> is only reached for
  a non-empty \<^verbatim>\<open>Phone\<close>, which is a string.
\<close>

definition validate_data :: "customer \<Rightarrow> ustring list" where
  "validate_data data =
     (if Name data = [] then [asc ''Name''] else [])
     @ (if Phone data = [] \<or> length (Phone data) \<noteq> 11 then [asc ''Phone''] else [])
     @ (if Address data = [] then [asc ''Address''] else [])
     @ (if Amount data = None \<or> Amount data = Some [] then [asc ''Amount''] else [])"

subsection \<open>The processing part of \<^verbatim>\<open>main\<close>\<close>

text \<open>
  The loop of lines 186 to 195 over \<^verbatim>\<open>enumerate(customer_blocks, 1)\<close>; its state is
  \<^verbatim>\<open>all_data\<close> and \<^verbatim>\<open>invalid_entries\<close>.
\<close>

fun process_blocks ::
  "nat \<Rightarrow> ustring list \<Rightarrow> customer list \<times> (nat \<times> customer \<times> ustring list) list
     \<Rightarrow> customer list \<times> (nat \<times> customer \<times> ustring list) list" where
  "process_blocks i [] (all_data, invalid_entries) = (all_data, invalid_entries)"
| "process_blocks i (block # blocks) (all_data, invalid_entries) =
     (let data = process_customer_block block;
          missing_fields = validate_data data
      in if missing_fields \<noteq> []
         then process_blocks (Suc i) blocks (all_data, invalid_entries @ [(i, data, missing_fields)])
         else process_blocks (Suc i) blocks (all_data @ [data], invalid_entries))"

text \<open>
  The two early returns of \<^verbatim>\<open>main\<close> are errors; otherwise the data frame gets the
  column \<^verbatim>\<open>Invoice = range(1, len(df) + 1)\<close> in front. A row of the frame is a pair
  of its invoice number and its record.
\<close>

datatype run_error = No_input_provided | No_valid_data

definition main_rows :: "ustring \<Rightarrow> run_error + (nat \<times> customer) list" where
  "main_rows user_input =
     (if strip user_input = [] then Inl No_input_provided
      else
        (let customer_blocks = extract_customer_blocks user_input;
             (all_data, invalid_entries) = process_blocks 1 customer_blocks ([], [])
         in if all_data = [] then Inl No_valid_data
            else Inr (zip [1 ..< Suc (length all_data)] all_data)))"

section \<open>Notions used to state the properties\<close>

text \<open>
  The shape of a captured phone number: eleven characters of the class \<^verbatim>\<open>\d\<close>, none
  of them a Bengali digit.
\<close>

definition phone_shape :: "ustring \<Rightarrow> bool" where
  "phone_shape p \<longleftrightarrow> length p = 11 \<and> (\<forall>x \<in> set p. is_decimal x \<and> \<not> is_bengali_digit x)"

text \<open>The test of line 127 and the test of line 131, as predicates on a stripped line.\<close>

definition is_address_line :: "ustring \<Rightarrow> bool" where
  "is_address_line line \<longleftrightarrow>
     has_keyword address_keywords line \<and> \<not> has_keyword order_keywords line"

definition is_order_line :: "ustring \<Rightarrow> bool" where
  "is_order_line line \<longleftrightarrow>
     contains order_bn line \<or> contains (asc ''order'') line \<or> contains odar_bn line"

text \<open>
  The part of the loop of \<^verbatim>\<open>process_customer_block\<close> that touches \<^verbatim>\<open>note\<close> and
  \<^verbatim>\<open>amount\<close>, on its own; \<open>scan_lines_note\<close> below shows that the loop computes it.
\<close>

fun note_scan :: "ustring list \<Rightarrow> ustring \<times> ustring option \<Rightarrow> ustring \<times> ustring option" where
  "note_scan [] na = na"
| "note_scan (l # rest) na =
     (if is_order_line (strip l) then
        (case next_nonempty rest of
           Some n \<Rightarrow> note_scan rest (n, extract_amount n)
         | None \<Rightarrow> note_scan rest na)
      else note_scan rest na)"

text \<open>
  Some line of the list is an order line with a non-empty line after it, so that the
  loop would assign \<^verbatim>\<open>note\<close> and \<^verbatim>\<open>amount\<close> there.
\<close>

fun overwritten_later :: "ustring list \<Rightarrow> bool" where
  "overwritten_later [] = False"
| "overwritten_later (l # rest) =
     ((is_order_line (strip l) \<and> next_nonempty rest \<noteq> None) \<or> overwritten_later rest)"

text \<open>
  A run with three blocks, used to illustrate the export: the first and the third
  block are complete, the second holds only a name marker and is rejected.
\<close>

definition example_block_1 :: ustring where
  "example_block_1 = join newline [asc ''nam area 01234567890'', asc ''order'', asc ''5'']"

definition example_block_2 :: ustring where
  "example_block_2 = asc ''nam''"

definition example_block_3 :: ustring where
  "example_block_3 = join newline [asc ''name area 01234567890'', asc ''order'', asc ''7'']"

definition example_input :: ustring where
  "example_input = join newline
     [asc ''nam area 01234567890'', asc ''order'', asc ''5'', [], asc ''nam'', [],
      asc ''name area 01234567890'', asc ''order'', asc ''7'']"

definition example_record_1 :: customer where
  "example_record_1 =
     \<lparr>Name = asc ''area 01234567890'', Address = asc ''nam area 01234567890'',
      Phone = asc ''01234567890'', Amount = Some (asc ''5''), Note = asc ''5'',
      Delivery_Type = asc ''Home''\<rparr>"

definition example_record_2 :: customer where
  "example_record_2 =
     \<lparr>Name = [], Address = [], Phone = [], Amount = Some [], Note = [],
      Delivery_Type = asc ''Home''\<rparr>"

definition example_record_3 :: customer where
  "example_record_3 =
     \<lparr>Name = asc ''area 01234567890'', Address = asc ''name area 01234567890'',
      Phone = asc ''01234567890'', Amount = Some (asc ''7''), Note = asc ''7'',
      Delivery_Type = asc ''Home''\<rparr>"

text \<open>
  The blank-line-separated segments of an input, as the loop of
  \<^verbatim>\<open>extract_customer_blocks\<close> sees them: the cleaned lines of each piece of the
  split, pieces without lines left out.
\<close>

definition segments :: "ustring \<Rightarrow> ustring list list" where
  "segments input_text = filter (\<lambda>lines. lines \<noteq> []) (map clean_lines (split_blocks input_text))"

text \<open>
  Name markers in the words of the specification, stated without the matcher: a line
  begins with a name marker when one of the four marker words is a prefix of it,
  letter case ignored; a segment is name-marked when one of its first two lines begins
  with a name marker.
\<close>

fun ci_prefix :: "ustring \<Rightarrow> ustring \<Rightarrow> bool" where
  "ci_prefix [] s = True"
| "ci_prefix (k # ks) [] = False"
| "ci_prefix (k # ks) (c # cs) = (to_lower c = to_lower k \<and> ci_prefix ks cs)"

definition name_markers :: "ustring list" where
  "name_markers = [nam_bn, asc ''name'', asc ''nam'', apnar_nam_bn]"

definition begins_with_marker :: "ustring \<Rightarrow> bool" where
  "begins_with_marker line \<longleftrightarrow> (\<exists>m \<in> set name_markers. ci_prefix m line)"

definition name_marked :: "ustring list \<Rightarrow> bool" where
  "name_marked seg \<longleftrightarrow> (\<exists>line \<in> set (take 2 seg). begins_with_marker line)"

text \<open>
  Line endings in the words of the specification: CR-LF and a lone CR both become a
  single line feed.
\<close>

fun normalize_newlines :: "ustring \<Rightarrow> ustring" where
  "normalize_newlines [] = []"
| "normalize_newlines (c # cs) =
     (if c = 0xD then
        (case cs of
           [] \<Rightarrow> [0xA]
         | d # ds \<Rightarrow> if d = 0xA then 0xA # normalize_newlines ds else 0xA # normalize_newlines cs)
      else c # normalize_newlines cs)"

text \<open>
  What the substitution of line 54 computes: each CR-LF pair becomes one line feed.
  It is used only to relate the two substitutions of lines 54 and 55 to
  \<open>normalize_newlines\<close>.
\<close>

fun crlf_to_lf :: "ustring \<Rightarrow> ustring" where
  "crlf_to_lf [] = []"
| "crlf_to_lf [c] = [c]"
| "crlf_to_lf (c # d # cs) =
     (if c = 0xD \<and> d = 0xA then 0xA # crlf_to_lf cs else c # crlf_to_lf (d # cs))"

text \<open>
  The blank-line-separated segments of a text in the words of the specification,
  stated without the matcher and without \<open>clean_lines\<close>: the text is cut into lines at
  line feeds, a line of whitespace only is blank, and a segment is a maximal run of
  consecutive lines that are not blank, each trimmed.
\<close>

definition blank :: "ustring \<Rightarrow> bool" where
  "blank l \<longleftrightarrow> (\<forall>c \<in> set l. is_space c)"

fun paragraphs :: "ustring list \<Rightarrow> ustring list list" where
  "paragraphs [] = []"
| "paragraphs [l] = (if blank l then [] else [[strip l]])"
| "paragraphs (l # l' # ls) =
     (if blank l then paragraphs (l' # ls)
      else if blank l' then [strip l] # paragraphs (l' # ls)
      else (case paragraphs (l' # ls) of
              [] \<Rightarrow> [[strip l]]
            | g # gs \<Rightarrow> (strip l # g) # gs))"

definition spec_segments :: "ustring \<Rightarrow> ustring list list" where
  "spec_segments input_text = paragraphs (split_on 0xA (normalize_newlines input_text))"

text \<open>
  A property of a pattern, used in the proofs only: each of its matches is a line
  feed, whitespace, and a line feed again.
\<close>

definition gap_regex :: "regex \<Rightarrow> bool" where
  "gap_regex r \<longleftrightarrow>
     (\<forall>pos s cap n c. (n, c) \<in> set (rmatch False r pos s cap) \<longrightarrow>
        (\<exists>w rest. s = 0xA # w @ 0xA # rest \<and> blank w \<and> n = length w + 2))"

text \<open>
  Names for the two patterns that \<open>split_blocks\<close> uses: \<^verbatim>\<open>\n\s*\n\s*\n+\<close> of line 56
  and \<^verbatim>\<open>\n\s*\n\<close> of line 59.
\<close>

definition collapse_pattern :: regex where
  "collapse_pattern =
     Seq (Atom (Lit 0xA)) (Seq (Rep Space 0 None)
       (Seq (Atom (Lit 0xA)) (Seq (Rep Space 0 None) (Rep (Lit 0xA) 1 None))))"

definition split_pattern :: regex where
  "split_pattern = Seq (Atom (Lit 0xA)) (Seq (Rep Space 0 None) (Atom (Lit 0xA)))"

text \<open>
  The re-merge rule in the words of the specification: a block is a name-marked
  segment together with the segments that follow it up to the next name-marked one,
  which starts the next block.
\<close>

function remerge_spec :: "ustring list list \<Rightarrow> ustring list list" where
  "remerge_spec [] = []"
| "remerge_spec (seg # segs) =
     (seg @ concat (takeWhile (\<lambda>s. \<not> name_marked s) segs))
     # remerge_spec (dropWhile (\<lambda>s. \<not> name_marked s) segs)"
  by pat_completeness auto
termination
  by (relation "measure length") (auto simp: le_imp_less_Suc length_dropWhile_le)

text \<open>
  An input of three segments: CR-LF line endings and two blank lines, one of them a
  single space, after the first segment; a second segment without name marker; a
  third segment whose second line begins with a name marker.
\<close>

definition example_segments_input :: ustring where
  "example_segments_input =
     asc ''nam A'' @ [0xD, 0xA, 0xD, 0xA, 0x20, 0xD, 0xA] @ asc ''x'' @ [0xA, 0xA]
       @ asc ''foo'' @ [0xA] @ asc ''Nam B''"

section \<open>Properties\<close>

subsection \<open>The digit normalizer\<close>

lemma translation_table_lookup:
  "map_of (maketrans bengali_digits english_digits) c =
     (if is_bengali_digit c then Some (c - 0x9E6 + 48) else None)"
proof -
  have "is_bengali_digit c \<longleftrightarrow> c \<in> set [0x9E6 ..< 0x9F0]"
    unfolding is_bengali_digit_def set_upt atLeastLessThan_iff by linarith
  also have "[0x9E6 ..< 0x9F0] = [0x9E6, 0x9E7, 0x9E8, 0x9E9, 0x9EA, 0x9EB, 0x9EC, 0x9ED, 0x9EE, 0x9EF::nat]"
    by (simp add: upt_rec)
  finally have "is_bengali_digit c \<longleftrightarrow>
      c \<in> {0x9E6, 0x9E7, 0x9E8, 0x9E9, 0x9EA, 0x9EB, 0x9EC, 0x9ED, 0x9EE, 0x9EF}"
    by simp
  then show ?thesis
    by (auto simp: maketrans_def bengali_digits_def english_digits_def asc_def)
qed

lemma normalize_map:
  "bengali_to_english_digits s = map (\<lambda>c. if is_bengali_digit c then c - 0x9E6 + 48 else c) s"
  by (simp add: bengali_to_english_digits_def translate_def translation_table_lookup)

lemma normalized_char_not_bengali:
  "\<not> is_bengali_digit (if is_bengali_digit c then c - 0x9E6 + 48 else c)"
proof (cases "is_bengali_digit c")
  case True
  then have "c - 0x9E6 + 48 < 0x9E6" unfolding is_bengali_digit_def by linarith
  with True show ?thesis unfolding is_bengali_digit_def by simp
next
  case False
  then show ?thesis by simp
qed

lemma normalize_no_bengali:
  "c \<in> set (bengali_to_english_digits s) \<Longrightarrow> \<not> is_bengali_digit c"
proof -
  assume "c \<in> set (bengali_to_english_digits s)"
  then have "c \<in> (\<lambda>c. if is_bengali_digit c then c - 0x9E6 + 48 else c) ` set s"
    unfolding normalize_map set_map .
  then obtain x where "c = (if is_bengali_digit x then x - 0x9E6 + 48 else x)"
    by (rule imageE)
  then show ?thesis
    using normalized_char_not_bengali [of x] by simp
qed

lemma normalize_idem:
  "bengali_to_english_digits (bengali_to_english_digits s) = bengali_to_english_digits s"
proof -
  have "\<forall>c \<in> set (bengali_to_english_digits s). \<not> is_bengali_digit c"
    using normalize_no_bengali by blast
  then have "map (\<lambda>c. if is_bengali_digit c then c - 0x9E6 + 48 else c) (bengali_to_english_digits s)
      = bengali_to_english_digits s"
    by (simp add: map_idI)
  then show ?thesis by (simp add: normalize_map)
qed

text \<open>
  C8. \<^verbatim>\<open>bengali_to_english_digits\<close> keeps the length of its input; at every position
  a Bengali digit U+09E6+k becomes the ASCII digit 48+k and any other character is
  unchanged; the output holds no Bengali digit; and the function is idempotent.
\<close>

theorem bengali_to_english_digits_spec:
  "length (bengali_to_english_digits s) = length s
   \<and> (\<forall>i < length s.
        (is_bengali_digit (s ! i) \<longrightarrow> bengali_to_english_digits s ! i = s ! i - 0x9E6 + 48)
      \<and> (\<not> is_bengali_digit (s ! i) \<longrightarrow> bengali_to_english_digits s ! i = s ! i))
   \<and> (\<forall>c \<in> set (bengali_to_english_digits s). \<not> is_bengali_digit c)
   \<and> bengali_to_english_digits (bengali_to_english_digits s) = bengali_to_english_digits s"
proof -
  have "length (bengali_to_english_digits s) = length s"
    by (simp add: normalize_map)
  moreover have "\<forall>i < length s.
        (is_bengali_digit (s ! i) \<longrightarrow> bengali_to_english_digits s ! i = s ! i - 0x9E6 + 48)
      \<and> (\<not> is_bengali_digit (s ! i) \<longrightarrow> bengali_to_english_digits s ! i = s ! i)"
    by (simp add: normalize_map)
  moreover have "\<forall>c \<in> set (bengali_to_english_digits s). \<not> is_bengali_digit c"
    using normalize_no_bengali by blast
  ultimately show ?thesis
    using normalize_idem by blast
qed

theorem bengali_to_english_digits_spec_witness:
  "length (bengali_to_english_digits [0x9E6, 0x41, 0x9EF]) = 3
   \<and> bengali_to_english_digits [0x9E6, 0x41, 0x9EF] ! 0 = 48
   \<and> bengali_to_english_digits [0x9E6, 0x41, 0x9EF] ! 1 = 0x41
   \<and> bengali_to_english_digits [0x9E6, 0x41, 0x9EF] ! 2 = 57
   \<and> 0x9E6 \<notin> set (bengali_to_english_digits [0x9E6, 0x41, 0x9EF])"
proof -
  let ?s = "[0x9E6, 0x41, 0x9EF] :: ustring"
  note spec = bengali_to_english_digits_spec [of ?s]
  have len: "length (bengali_to_english_digits ?s) = 3"
    using spec by simp
  have pos: "\<forall>i<3. (is_bengali_digit (?s ! i) \<longrightarrow> bengali_to_english_digits ?s ! i = ?s ! i - 0x9E6 + 48)
      \<and> (\<not> is_bengali_digit (?s ! i) \<longrightarrow> bengali_to_english_digits ?s ! i = ?s ! i)"
    using spec by simp
  have e0: "bengali_to_english_digits ?s ! 0 = 48"
    using pos [rule_format, of 0] by (simp add: is_bengali_digit_def)
  have e1: "bengali_to_english_digits ?s ! 1 = 0x41"
    using pos [rule_format, of 1] by (simp add: is_bengali_digit_def)
  have e2: "bengali_to_english_digits ?s ! 2 = 57"
    using pos [rule_format, of 2] by (simp add: is_bengali_digit_def)
  have "\<forall>c \<in> set (bengali_to_english_digits ?s). \<not> is_bengali_digit c"
    using spec by blast
  moreover have "is_bengali_digit 0x9E6"
    by (simp add: is_bengali_digit_def)
  ultimately have "0x9E6 \<notin> set (bengali_to_english_digits ?s)"
    by blast
  with len e0 e1 e2 show ?thesis by blast
qed

subsection \<open>Facts about the matcher\<close>

lemma seq_results_eq:
  "seq_results ic r2 pos s xs =
     concat (map (\<lambda>(n1, c1). map (\<lambda>(n2, c2). (n1 + n2, c2)) (rmatch ic r2 (pos + n1) (drop n1 s) c1)) xs)"
  by (induction xs) auto

lemma rmatch_Seq_eval:
  "rmatch ic (Seq r1 r2) pos s cap = seq_results ic r2 pos s (rmatch ic r1 pos s cap)"
  by (simp add: seq_results_eq)

lemma take_run:
  "n \<le> length (takeWhile P s) \<Longrightarrow> length (take n s) = n \<and> (\<forall>c \<in> set (take n s). P c)"
proof (induction s arbitrary: n)
  case Nil
  then show ?case by simp
next
  case (Cons x xs)
  then show ?case by (cases n) (auto split: if_splits)
qed

lemma rmatch_Rep_results:
  assumes "(n, c) \<in> set (rmatch ic (Rep a lo hi) pos s cap)"
  shows "c = cap \<and> lo \<le> n \<and> n \<le> length (takeWhile (atom_ok ic a) s) \<and> (\<forall>h. hi = Some h \<longrightarrow> n \<le> h)"
  using assms by (auto simp: Let_def split: option.splits)

lemma digit_group_results:
  assumes "(n, c) \<in> set (rmatch ic (Group (Rep Digit 11 (Some 11))) pos s cap)"
  shows "\<exists>g. c = Some g \<and> length g = 11 \<and> (\<forall>x \<in> set g. is_decimal x) \<and> set g \<subseteq> set s"
proof -
  from assms obtain c' where in_rep: "(n, c') \<in> set (rmatch ic (Rep Digit 11 (Some 11)) pos s cap)"
    and c: "c = Some (take n s)"
    by auto
  from rmatch_Rep_results [OF in_rep]
  have n: "n = 11" and run: "n \<le> length (takeWhile (atom_ok ic Digit) s)"
    by auto
  from take_run [OF run] have "length (take n s) = n" and "\<forall>x \<in> set (take n s). is_decimal x"
    by auto
  with c n show ?thesis
    by (auto dest: in_set_takeD)
qed

lemma rmatch_Seq_results:
  assumes "(n, c) \<in> set (rmatch ic (Seq r1 r2) pos s cap)"
  shows "\<exists>n1 c1 n2. (n1, c1) \<in> set (rmatch ic r1 pos s cap)
           \<and> (n2, c) \<in> set (rmatch ic r2 (pos + n1) (drop n1 s) c1) \<and> n = n1 + n2"
  using assms by auto

lemma search_from_result:
  assumes "search_from ic r pos s = Some m"
  shows "\<exists>pos' k. (m_len m, group1 m) \<in> set (rmatch ic r pos' (drop k s) None)"
  using assms
proof (induction s arbitrary: pos)
  case Nil
  then obtain rest where "rmatch ic r pos [] None = (m_len m, group1 m) # rest"
    by (auto split: list.splits)
  then have "(m_len m, group1 m) \<in> set (rmatch ic r pos (drop 0 []) None)"
    by simp
  then show ?case by blast
next
  case (Cons x xs)
  show ?case
  proof (cases "rmatch ic r pos (x # xs) None")
    case Nil
    with Cons.prems have "search_from ic r (Suc pos) xs = Some m" by simp
    from Cons.IH [OF this] obtain pos' k where "(m_len m, group1 m) \<in> set (rmatch ic r pos' (drop k xs) None)"
      by blast
    then have "(m_len m, group1 m) \<in> set (rmatch ic r pos' (drop (Suc k) (x # xs)) None)"
      by simp
    then show ?thesis by blast
  next
    case (Cons a list)
    with Cons.prems have "(m_len m, group1 m) \<in> set (rmatch ic r pos (drop 0 (x # xs)) None)"
      by (cases a) auto
    then show ?thesis by blast
  qed
qed

lemma phone_pattern_group:
  assumes "p \<in> set phone_patterns" and "(n, c) \<in> set (rmatch False p pos s cap)"
  shows "\<exists>g. c = Some g \<and> length g = 11 \<and> (\<forall>x \<in> set g. is_decimal x) \<and> set g \<subseteq> set s"
proof -
  from assms(1) consider "p = Group (Rep Digit 11 (Some 11))"
    | "p = Seq (lit (asc ''+88'')) (Group (Rep Digit 11 (Some 11)))"
    by (auto simp: phone_patterns_def)
  then show ?thesis
  proof cases
    case 1
    with assms(2) show ?thesis using digit_group_results by blast
  next
    case 2
    with assms(2) obtain n1 c1 n2 where
      "(n2, c) \<in> set (rmatch False (Group (Rep Digit 11 (Some 11))) (pos + n1) (drop n1 s) c1)"
      using rmatch_Seq_results by blast
    from digit_group_results [OF this] obtain g where
      "c = Some g" "length g = 11" "\<forall>x \<in> set g. is_decimal x" "set g \<subseteq> set (drop n1 s)"
      by blast
    moreover have "set (drop n1 s) \<subseteq> set s"
      by (rule set_drop_subset)
    ultimately show ?thesis by blast
  qed
qed

lemma first_pattern_match_result:
  assumes "first_pattern_match ps s = Some g" and "set ps \<subseteq> set phone_patterns"
  shows "length g = 11 \<and> (\<forall>x \<in> set g. is_decimal x) \<and> set g \<subseteq> set s"
  using assms
proof (induction ps)
  case Nil
  then show ?case by simp
next
  case (Cons p ps)
  show ?case
  proof (cases "re_search False p s")
    case None
    with Cons show ?thesis by simp
  next
    case (Some m)
    with Cons.prems have g: "group1 m = Some g" by simp
    from Some obtain pos' k where "(m_len m, group1 m) \<in> set (rmatch False p pos' (drop k s) None)"
      unfolding re_search_def using search_from_result by blast
    with phone_pattern_group [of p] Cons.prems(2) g
    have "length g = 11 \<and> (\<forall>x \<in> set g. is_decimal x) \<and> set g \<subseteq> set (drop k s)"
      by fastforce
    moreover have "set (drop k s) \<subseteq> set s"
      by (rule set_drop_subset)
    ultimately show ?thesis by blast
  qed
qed

lemma extract_phone_number_shape:
  assumes "extract_phone_number line = Some g"
  shows "length g = 11 \<and> (\<forall>x \<in> set g. is_decimal x \<and> \<not> is_bengali_digit x)"
proof -
  from assms have "first_pattern_match phone_patterns (bengali_to_english_digits line) = Some g"
    by (simp add: extract_phone_number_def)
  from first_pattern_match_result [OF this]
  have "length g = 11" and "\<forall>x \<in> set g. is_decimal x"
    and "set g \<subseteq> set (bengali_to_english_digits line)"
    by auto
  then show ?thesis
    using normalize_no_bengali by blast
qed

subsection \<open>Facts about the scan of a block\<close>

lemma set_name_other [simp]:
  "st_phone (set_name i line st) = st_phone st"
  "st_address_lines (set_name i line st) = st_address_lines st"
  "st_note (set_name i line st) = st_note st"
  "st_amount (set_name i line st) = st_amount st"
  by (simp_all add: set_name_def)

lemma set_phone_other [simp]:
  "st_name (set_phone line st) = st_name st"
  "st_address_lines (set_phone line st) = st_address_lines st"
  "st_note (set_phone line st) = st_note st"
  "st_amount (set_phone line st) = st_amount st"
  by (simp_all add: set_phone_def split: option.splits)

lemma add_address_other [simp]:
  "st_name (add_address line st) = st_name st"
  "st_phone (add_address line st) = st_phone st"
  "st_note (add_address line st) = st_note st"
  "st_amount (add_address line st) = st_amount st"
  by (simp_all add: add_address_def)

lemma set_note_other [simp]:
  "st_name (set_note line rest st) = st_name st"
  "st_phone (set_note line rest st) = st_phone st"
  "st_address_lines (set_note line rest st) = st_address_lines st"
  by (simp_all add: set_note_def split: option.splits)

lemma process_customer_block_fields:
  "Name (process_customer_block b) = st_name (scan_lines 0 (block_lines b) initial_fields)"
  "Phone (process_customer_block b) = st_phone (scan_lines 0 (block_lines b) initial_fields)"
  "Address (process_customer_block b) =
     join newline (st_address_lines (scan_lines 0 (block_lines b) initial_fields))"
  "Note (process_customer_block b) = st_note (scan_lines 0 (block_lines b) initial_fields)"
  "Amount (process_customer_block b) = st_amount (scan_lines 0 (block_lines b) initial_fields)"
  by (simp_all add: process_customer_block_def Let_def)

text \<open>The phone number: the first line that yields one decides, and it keeps its shape.\<close>

lemma set_phone_shape:
  assumes "st_phone st = [] \<or> phone_shape (st_phone st)"
  shows "st_phone (set_phone line st) = [] \<or> phone_shape (st_phone (set_phone line st))"
  using assms extract_phone_number_shape [of line]
  by (auto simp: set_phone_def phone_shape_def split: option.splits)

lemma scan_lines_phone_shape:
  assumes "st_phone st = [] \<or> phone_shape (st_phone st)"
  shows "st_phone (scan_lines i ls st) = [] \<or> phone_shape (st_phone (scan_lines i ls st))"
  using assms
proof (induction ls arbitrary: i st)
  case Nil
  then show ?case by simp
next
  case (Cons l ls)
  show ?case
  proof (cases "strip l = []")
    case True
    with Cons show ?thesis by simp
  next
    case False
    let ?st' = "set_note (strip l) ls (add_address (strip l) (set_phone (strip l) (set_name i (strip l) st)))"
    from Cons.prems have "st_phone (set_name i (strip l) st) = [] \<or> phone_shape (st_phone (set_name i (strip l) st))"
      by simp
    from set_phone_shape [OF this] have "st_phone ?st' = [] \<or> phone_shape (st_phone ?st')"
      by simp
    from Cons.IH [OF this] False show ?thesis
      by (simp add: Let_def)
  qed
qed

text \<open>The address lines: a filter of the stripped, non-empty lines.\<close>

lemma contains_Nil_iff: "contains k [] \<longleftrightarrow> k = []"
  by simp

lemma not_address_line_Nil: "\<not> is_address_line []"
  by (simp add: is_address_line_def has_keyword_def address_keywords_def asc_def)

lemma scan_lines_address:
  "st_address_lines (scan_lines i ls st) =
     st_address_lines st @ filter is_address_line (map strip ls)"
proof (induction ls arbitrary: i st)
  case Nil
  then show ?case by simp
next
  case (Cons l ls)
  show ?case
  proof (cases "strip l = []")
    case True
    with Cons show ?thesis by (simp add: not_address_line_Nil)
  next
    case False
    with Cons show ?thesis
      by (simp add: Let_def add_address_def is_address_line_def)
  qed
qed

text \<open>Note and amount change together, at order lines that have a later non-empty line.\<close>

lemma not_order_line_Nil: "\<not> is_order_line []"
  by (simp add: is_order_line_def order_bn_def odar_bn_def asc_def)

lemma scan_lines_note:
  "(st_note (scan_lines i ls st), st_amount (scan_lines i ls st)) =
     note_scan ls (st_note st, st_amount st)"
proof (induction ls arbitrary: i st)
  case Nil
  then show ?case by simp
next
  case (Cons l ls)
  show ?case
  proof (cases "strip l = []")
    case True
    with Cons show ?thesis by (simp add: not_order_line_Nil)
  next
    case False
    with Cons show ?thesis
      by (simp add: Let_def set_note_def is_order_line_def split: option.splits)
  qed
qed

lemma next_nonempty_not_Nil: "next_nonempty ls = Some n \<Longrightarrow> n \<noteq> []"
  by (induction ls) (auto split: if_splits)

subsection \<open>Evaluation on concrete inputs\<close>

lemma is_decimal_below:
  "c < 0x660 \<Longrightarrow> is_decimal c \<longleftrightarrow> 0x30 \<le> c \<and> c \<le> 0x39"
  by (auto simp: is_decimal_def decimal_ranges_def)

lemmas eval_chars = asc_def is_decimal_below is_space_def whitespace_def normalize_map
  is_bengali_digit_def to_lower_def newline_def strip_def

lemmas eval_regex = re_search_def re_match_def re_sub_def re_split_def rmatch_Seq_eval Let_def

lemmas eval_keywords = has_keyword_def name_keywords_def address_keywords_def
  order_keywords_def order_bn_def odar_bn_def nam_bn_def apnar_nam_bn_def taka_bn_def
  is_address_line_def is_order_line_def

lemma phone_plus88:
  "extract_phone_number (asc ''+8801712345678'') = Some (asc ''88017123456'')"
  by (simp add: extract_phone_number_def phone_patterns_def eval_chars eval_regex
        del: rmatch.simps(3))

lemma amount_taka:
  "extract_amount (asc ''500 Taka shirt'') = None"
  by (simp add: extract_amount_def amount_pattern_def eval_chars eval_regex eval_keywords
        del: rmatch.simps(3))

lemma validate_data_members:
  "set (validate_data d) \<subseteq> {asc ''Name'', asc ''Phone'', asc ''Address'', asc ''Amount''}"
  "asc ''Name'' \<in> set (validate_data d) \<longleftrightarrow> Name d = []"
  "asc ''Phone'' \<in> set (validate_data d) \<longleftrightarrow> Phone d = [] \<or> length (Phone d) \<noteq> 11"
  "asc ''Address'' \<in> set (validate_data d) \<longleftrightarrow> Address d = []"
  "asc ''Amount'' \<in> set (validate_data d) \<longleftrightarrow> Amount d = None \<or> Amount d = Some []"
  by (auto simp: validate_data_def asc_def)

lemma process_blocks_fst:
  "fst (process_blocks i blocks (all_data, invalid_entries)) =
     all_data @ filter (\<lambda>d. validate_data d = []) (map process_customer_block blocks)"
  by (induction blocks arbitrary: i all_data invalid_entries) (simp_all add: Let_def)

lemma process_blocks_snd:
  "map fst (snd (process_blocks i blocks (all_data, invalid_entries))) =
     map fst invalid_entries
     @ map fst (filter (\<lambda>(k, b). validate_data (process_customer_block b) \<noteq> [])
                  (zip [i ..< i + length blocks] blocks))"
proof (induction blocks arbitrary: i all_data invalid_entries)
  case Nil
  then show ?case by simp
next
  case (Cons b bs)
  have "[i ..< i + length (b # bs)] = i # [Suc i ..< Suc i + length bs]"
    by (simp add: upt_rec)
  with Cons show ?case by (simp add: Let_def)
qed

lemmas eval_scan = process_customer_block_fields block_lines_def initial_fields_def
  set_name_def set_phone_def add_address_def set_note_def name_prefix_def
  extract_phone_number_def phone_patterns_def extract_amount_def amount_pattern_def

subsection \<open>Phone extraction\<close>

text \<open>
  C1. On a line that holds \<^verbatim>\<open>+88\<close> followed by the eleven digits \<^verbatim>\<open>01712345678\<close>,
  \<^verbatim>\<open>extract_phone_number\<close> does not return that number: the pattern \<^verbatim>\<open>(\d{11})\<close> is
  tried first and takes the first eleven digits of the run, so the result is
  \<^verbatim>\<open>88017123456\<close>, and that is what \<^verbatim>\<open>process_customer_block\<close> stores as \<^verbatim>\<open>Phone\<close>.
  The pattern with the \<^verbatim>\<open>+88\<close> prefix is never reached when the first one matches.
\<close>

theorem extract_phone_number_plus88_prefix:
  "extract_phone_number (asc ''+8801712345678'') = Some (asc ''88017123456'')
   \<and> Phone (process_customer_block (asc ''+8801712345678'')) = asc ''88017123456''"
proof -
  have "Phone (process_customer_block (asc ''+8801712345678'')) = asc ''88017123456''"
    by (simp add: eval_scan eval_chars eval_regex eval_keywords del: rmatch.simps(3))
  with phone_plus88 show ?thesis by simp
qed

subsection \<open>Amount derivation\<close>

text \<open>
  C2. For the note \<^verbatim>\<open>500 Taka shirt\<close>, \<^verbatim>\<open>extract_amount\<close> returns \<^verbatim>\<open>None\<close>: the
  alternative \<^verbatim>\<open>Taka\<close> of \<^verbatim>\<open>amount_pattern\<close> matches on its own, without group 1, so
  \<^verbatim>\<open>match.group(1)\<close> is \<^verbatim>\<open>None\<close> and the fallback to the first run of digits is
  not reached. The \<^verbatim>\<open>Amount\<close> of a block with this note is \<^verbatim>\<open>None\<close>.
\<close>

theorem extract_amount_taka_word:
  "extract_amount (asc ''500 Taka shirt'') = None
   \<and> Amount (process_customer_block (join newline [asc ''order'', asc ''500 Taka shirt''])) = None"
proof -
  have "note_scan (block_lines (join newline [asc ''order'', asc ''500 Taka shirt''])) ([], Some [])
          = (asc ''500 Taka shirt'', extract_amount (asc ''500 Taka shirt''))"
    by (simp add: block_lines_def eval_chars eval_keywords)
  then have "Amount (process_customer_block (join newline [asc ''order'', asc ''500 Taka shirt'']))
      = extract_amount (asc ''500 Taka shirt'')"
    using scan_lines_note [of 0 "block_lines (join newline [asc ''order'', asc ''500 Taka shirt''])" initial_fields]
    by (simp add: process_customer_block_fields initial_fields_def)
  with amount_taka show ?thesis by simp
qed

subsection \<open>The validator\<close>

text \<open>
  C5. The defects reported by \<^verbatim>\<open>validate_data\<close> are among Name, Phone, Address and
  Amount; Name is reported exactly when the name is empty, Phone exactly when the
  phone is empty or its length is not 11, Address exactly when the address is empty,
  and Amount exactly when the amount is empty or absent.
\<close>

theorem validate_data_defects:
  "set (validate_data d) \<subseteq> {asc ''Name'', asc ''Phone'', asc ''Address'', asc ''Amount''}
   \<and> (asc ''Name'' \<in> set (validate_data d) \<longleftrightarrow> Name d = [])
   \<and> (asc ''Phone'' \<in> set (validate_data d) \<longleftrightarrow> Phone d = [] \<or> length (Phone d) \<noteq> 11)
   \<and> (asc ''Address'' \<in> set (validate_data d) \<longleftrightarrow> Address d = [])
   \<and> (asc ''Amount'' \<in> set (validate_data d) \<longleftrightarrow> Amount d = None \<or> Amount d = Some [])"
  using validate_data_members [of d] by blast

theorem validate_data_defects_witness:
  "asc ''Phone'' \<in> set (validate_data
      \<lparr>Name = asc ''Rahim'', Address = asc ''area 1'', Phone = asc ''0171234567'',
       Amount = Some (asc ''500''), Note = asc ''500 shirt'', Delivery_Type = asc ''Home''\<rparr>)
   \<and> validate_data
      \<lparr>Name = asc ''Rahim'', Address = asc ''area 1'', Phone = asc ''01712345678'',
       Amount = Some (asc ''500''), Note = asc ''500 shirt'', Delivery_Type = asc ''Home''\<rparr> = []"
proof -
  define short where "short = \<lparr>Name = asc ''Rahim'', Address = asc ''area 1'',
       Phone = asc ''0171234567'', Amount = Some (asc ''500''), Note = asc ''500 shirt'',
       Delivery_Type = asc ''Home''\<rparr>"
  define full where "full = \<lparr>Name = asc ''Rahim'', Address = asc ''area 1'',
       Phone = asc ''01712345678'', Amount = Some (asc ''500''), Note = asc ''500 shirt'',
       Delivery_Type = asc ''Home''\<rparr>"
  have "length (Phone short) \<noteq> 11"
    by (simp add: short_def asc_def)
  with validate_data_defects [of short] have bad: "asc ''Phone'' \<in> set (validate_data short)"
    by simp
  have "Name full \<noteq> []" "\<not> (Phone full = [] \<or> length (Phone full) \<noteq> 11)"
    "Address full \<noteq> []" "\<not> (Amount full = None \<or> Amount full = Some [])"
    by (simp_all add: full_def asc_def)
  with validate_data_defects [of full]
  have sub: "set (validate_data full) \<subseteq> {asc ''Name'', asc ''Phone'', asc ''Address'', asc ''Amount''}"
    and absent: "asc ''Name'' \<notin> set (validate_data full)" "asc ''Phone'' \<notin> set (validate_data full)"
      "asc ''Address'' \<notin> set (validate_data full)" "asc ''Amount'' \<notin> set (validate_data full)"
    by simp_all
  have "validate_data full = []"
  proof (rule ccontr)
    assume "validate_data full \<noteq> []"
    then obtain x where x: "x \<in> set (validate_data full)"
      by (cases "validate_data full") auto
    with sub have "x = asc ''Name'' \<or> x = asc ''Phone'' \<or> x = asc ''Address'' \<or> x = asc ''Amount''"
      by (simp add: subset_iff)
    with x absent show False by metis
  qed
  with bad show ?thesis
    unfolding short_def full_def by simp
qed

subsection \<open>Note and amount\<close>

lemma note_scan_unchanged:
  "\<not> overwritten_later ls \<Longrightarrow> note_scan ls na = na"
  by (induction ls arbitrary: na) (auto split: option.splits)

lemma note_scan_last:
  assumes "is_order_line (strip l)" and "next_nonempty post = Some n"
    and "\<not> overwritten_later post"
  shows "note_scan (pre @ l # post) na = (n, extract_amount n)"
proof (induction pre arbitrary: na)
  case Nil
  from assms show ?case by (simp add: note_scan_unchanged)
next
  case (Cons x pre)
  then show ?case by (simp split: option.splits)
qed

lemma note_scan_invariant:
  assumes "(fst na = [] \<and> snd na = Some []) \<or> (fst na \<noteq> [] \<and> snd na = extract_amount (fst na))"
  shows "(fst (note_scan ls na) = [] \<and> snd (note_scan ls na) = Some [])
         \<or> (fst (note_scan ls na) \<noteq> [] \<and> snd (note_scan ls na) = extract_amount (fst (note_scan ls na)))"
  using assms
proof (induction ls arbitrary: na)
  case Nil
  then show ?case by simp
next
  case (Cons l ls)
  show ?case
  proof (cases "is_order_line (strip l)")
    case False
    with Cons show ?thesis by simp
  next
    case True
    show ?thesis
    proof (cases "next_nonempty ls")
      case None
      with True Cons show ?thesis by simp
    next
      case (Some n)
      then have "n \<noteq> []" by (rule next_nonempty_not_Nil)
      then have "(fst (n, extract_amount n) = [] \<and> snd (n, extract_amount n) = Some [])
         \<or> (fst (n, extract_amount n) \<noteq> [] \<and> snd (n, extract_amount n) = extract_amount (fst (n, extract_amount n)))"
        by simp
      from Cons.IH [OF this] True Some show ?thesis by simp
    qed
  qed
qed

lemma process_customer_block_note:
  "(Note (process_customer_block b), Amount (process_customer_block b)) =
     note_scan (block_lines b) ([], Some [])"
  using scan_lines_note [of 0 "block_lines b" initial_fields]
  by (simp add: process_customer_block_fields initial_fields_def)

text \<open>Concrete blocks used below.\<close>

lemma two_orders_lines:
  "block_lines (join newline [asc ''order'', asc ''A 1'', asc ''order'', asc ''B 2''])
     = [asc ''order'', asc ''A 1'', asc ''order'', asc ''B 2'']"
  by (simp add: block_lines_def eval_chars)

lemma order_line_facts:
  "is_order_line (strip (asc ''order''))"
  "\<not> is_order_line (strip (asc ''A 1''))"
  "\<not> is_order_line (strip (asc ''B 2''))"
  "strip (asc ''A 1'') = asc ''A 1''"
  "strip (asc ''B 2'') = asc ''B 2''"
  by (simp_all add: eval_chars eval_keywords)

lemma amount_B2: "extract_amount (asc ''B 2'') = Some (asc ''2'')"
  by (simp add: extract_amount_def amount_pattern_def eval_chars eval_regex eval_keywords
        del: rmatch.simps(3))

text \<open>
  C3 (as amended). Every order line that has a non-empty line after it assigns Note
  and Amount again, so the last such line decides: if the lines of the block are
  \<open>pre @ l # post\<close>, where \<open>l\<close> is an order line, \<open>n\<close> is the first non-empty line of
  \<open>post\<close>, and no order line of \<open>post\<close> has a non-empty line after it, then Note is
  \<open>n\<close> and Amount is \<^verbatim>\<open>extract_amount(n)\<close>, whatever \<open>pre\<close> holds.
\<close>

theorem last_order_marker_wins:
  assumes "block_lines b = pre @ l # post"
    and "is_order_line (strip l)"
    and "next_nonempty post = Some n"
    and "\<not> overwritten_later post"
  shows "Note (process_customer_block b) = n \<and> Amount (process_customer_block b) = extract_amount n"
  using note_scan_last [OF assms(2-4), of pre "([], Some [])"] assms(1)
    process_customer_block_note [of b]
  by simp

theorem last_order_marker_wins_witness:
  "block_lines (join newline [asc ''order'', asc ''A 1'', asc ''order'', asc ''B 2''])
     = [asc ''order'', asc ''A 1''] @ asc ''order'' # [asc ''B 2'']
   \<and> is_order_line (strip (asc ''order''))
   \<and> next_nonempty [asc ''B 2''] = Some (asc ''B 2'')
   \<and> \<not> overwritten_later [asc ''B 2'']
   \<and> Note (process_customer_block (join newline [asc ''order'', asc ''A 1'', asc ''order'', asc ''B 2''])) = asc ''B 2''
   \<and> Amount (process_customer_block (join newline [asc ''order'', asc ''A 1'', asc ''order'', asc ''B 2''])) = Some (asc ''2'')"
proof -
  let ?b = "join newline [asc ''order'', asc ''A 1'', asc ''order'', asc ''B 2'']"
  have nonempty: "asc ''B 2'' \<noteq> []"
    by (simp add: asc_def)
  have h1: "block_lines ?b = [asc ''order'', asc ''A 1''] @ asc ''order'' # [asc ''B 2'']"
    using two_orders_lines by simp
  have h2: "is_order_line (strip (asc ''order''))"
    by (rule order_line_facts)
  have h3: "next_nonempty [asc ''B 2''] = Some (asc ''B 2'')"
    using order_line_facts nonempty by simp
  have h4: "\<not> overwritten_later [asc ''B 2'']"
    using order_line_facts by simp
  from last_order_marker_wins [OF h1 h2 h3 h4] amount_B2
  have "Note (process_customer_block ?b) = asc ''B 2''"
    and "Amount (process_customer_block ?b) = Some (asc ''2'')"
    by simp_all
  with h1 h2 h3 h4 show ?thesis by blast
qed

text \<open>
  Counterexample to C3 as stated. In the block of the four lines \<^verbatim>\<open>order\<close>, \<^verbatim>\<open>A 1\<close>, \<^verbatim>\<open>order\<close>, \<^verbatim>\<open>B 2\<close> the line after
  the first order marker is \<^verbatim>\<open>A 1\<close>, and Note is \<^verbatim>\<open>B 2\<close>.
\<close>

theorem first_order_marker_counterexample:
  "next_nonempty [asc ''A 1'', asc ''order'', asc ''B 2''] = Some (asc ''A 1'')
   \<and> Note (process_customer_block (join newline [asc ''order'', asc ''A 1'', asc ''order'', asc ''B 2''])) = asc ''B 2''
   \<and> asc ''B 2'' \<noteq> asc ''A 1''"
proof -
  let ?b = "join newline [asc ''order'', asc ''A 1'', asc ''order'', asc ''B 2'']"
  have ne: "asc ''A 1'' \<noteq> []" "asc ''B 2'' \<noteq> []" "asc ''B 2'' \<noteq> asc ''A 1''"
    by (simp_all add: asc_def)
  have first: "next_nonempty [asc ''A 1'', asc ''order'', asc ''B 2''] = Some (asc ''A 1'')"
    using order_line_facts ne by simp
  have scan: "note_scan [asc ''order'', asc ''A 1'', asc ''order'', asc ''B 2''] ([], Some [])
      = (asc ''B 2'', extract_amount (asc ''B 2''))"
    using order_line_facts ne by simp
  have "(Note (process_customer_block ?b), Amount (process_customer_block ?b))
      = note_scan (block_lines ?b) ([], Some [])"
    by (rule process_customer_block_note)
  also have "\<dots> = (asc ''B 2'', extract_amount (asc ''B 2''))"
    unfolding two_orders_lines by (rule scan)
  finally have "Note (process_customer_block ?b) = asc ''B 2''"
    by (simp only: prod.inject)
  with first ne(3) show ?thesis by blast
qed


subsection \<open>Totality and the type of the fields\<close>

lemma block_lines_blank: "strip b = [] \<Longrightarrow> block_lines b = [[]]"
  by (simp add: block_lines_def)

lemma strip_Nil: "strip [] = []"
  by (simp add: strip_def)

lemma process_customer_block_blank:
  assumes "strip b = []"
  shows "process_customer_block b =
     \<lparr>Name = [], Address = [], Phone = [], Amount = Some [], Note = [], Delivery_Type = asc ''Home''\<rparr>"
  using assms
  by (simp add: process_customer_block_def block_lines_blank strip_Nil initial_fields_def)

lemma amount_shirt: "extract_amount (asc ''shirt'') = None"
  by (simp add: extract_amount_def amount_pattern_def eval_chars eval_regex eval_keywords
        del: rmatch.simps(3))

lemma order_shirt_lines:
  "block_lines (join newline [asc ''order'', asc ''shirt'']) = [asc ''order'', asc ''shirt'']"
  by (simp add: block_lines_def eval_chars)

lemma order_shirt_scan:
  "note_scan [asc ''order'', asc ''shirt''] ([], Some []) = (asc ''shirt'', extract_amount (asc ''shirt''))"
  by (simp add: eval_chars eval_keywords)

text \<open>
  C4 (as amended). \<^verbatim>\<open>process_customer_block\<close> returns a record for every block, and
  Name, Address, Phone and Note are strings in it. Amount is the empty string as long
  as no Note was captured; once a Note is captured, Amount is what \<^verbatim>\<open>extract_amount\<close>
  returns for that Note, which can be \<^verbatim>\<open>None\<close> (for instance when the Note holds no
  digit). A block that is blank after stripping gives the record of empty strings.
\<close>

theorem process_customer_block_amount:
  "((Note (process_customer_block b) = [] \<and> Amount (process_customer_block b) = Some [])
    \<or> (Note (process_customer_block b) \<noteq> []
        \<and> Amount (process_customer_block b) = extract_amount (Note (process_customer_block b))))
   \<and> (strip b = [] \<longrightarrow> process_customer_block b =
        \<lparr>Name = [], Address = [], Phone = [], Amount = Some [], Note = [],
         Delivery_Type = asc ''Home''\<rparr>)"
proof -
  have "(fst ([], Some []) = ([]::ustring) \<and> snd (([]::ustring), Some ([]::ustring)) = Some [])
      \<or> (fst (([]::ustring), Some ([]::ustring)) \<noteq> []
          \<and> snd (([]::ustring), Some ([]::ustring)) = extract_amount (fst (([]::ustring), Some ([]::ustring))))"
    by simp
  from note_scan_invariant [OF this, of "block_lines b"]
  have "(Note (process_customer_block b) = [] \<and> Amount (process_customer_block b) = Some [])
    \<or> (Note (process_customer_block b) \<noteq> []
        \<and> Amount (process_customer_block b) = extract_amount (Note (process_customer_block b)))"
    unfolding process_customer_block_note [of b, symmetric] by simp
  then show ?thesis
    using process_customer_block_blank by blast
qed

theorem process_customer_block_amount_witness:
  "strip (asc '' '') = []
   \<and> process_customer_block (asc '' '') =
        \<lparr>Name = [], Address = [], Phone = [], Amount = Some [], Note = [],
         Delivery_Type = asc ''Home''\<rparr>
   \<and> Note (process_customer_block (asc '' '')) = []
   \<and> Amount (process_customer_block (asc '' '')) = Some []"
proof -
  have blank: "strip (asc '' '') = []"
    by (simp add: eval_chars)
  with process_customer_block_amount [of "asc '' ''"]
  have r: "process_customer_block (asc '' '') =
        \<lparr>Name = [], Address = [], Phone = [], Amount = Some [], Note = [],
         Delivery_Type = asc ''Home''\<rparr>"
    by blast
  then have "Note (process_customer_block (asc '' '')) = []"
    and "Amount (process_customer_block (asc '' '')) = Some []"
    by simp_all
  with blank r show ?thesis by blast
qed

text \<open>
  Counterexample to C4 as stated. For the block of the two lines \<^verbatim>\<open>order\<close> and
  \<^verbatim>\<open>shirt\<close> the value of Amount is
  \<^verbatim>\<open>None\<close>, not a string.
\<close>

theorem amount_none_counterexample:
  "Amount (process_customer_block (join newline [asc ''order'', asc ''shirt''])) = None"
proof -
  let ?b = "join newline [asc ''order'', asc ''shirt'']"
  have "(Note (process_customer_block ?b), Amount (process_customer_block ?b))
      = note_scan (block_lines ?b) ([], Some [])"
    by (rule process_customer_block_note)
  also have "\<dots> = (asc ''shirt'', extract_amount (asc ''shirt''))"
    unfolding order_shirt_lines by (rule order_shirt_scan)
  finally have "Amount (process_customer_block ?b) = extract_amount (asc ''shirt'')"
    by (simp only: prod.inject)
  with amount_shirt show ?thesis by simp
qed

subsection \<open>Address classification\<close>

lemma area_lines:
  "block_lines (join newline [asc ''area 1'', asc ''order area 2'', asc ''AREA 3'', asc ''address 4''])
     = [asc ''area 1'', asc ''order area 2'', asc ''AREA 3'', asc ''address 4'']"
  by (simp add: block_lines_def eval_chars)

lemma area_line_facts:
  "strip (asc ''area 1'') = asc ''area 1''"
  "strip (asc ''order area 2'') = asc ''order area 2''"
  "strip (asc ''AREA 3'') = asc ''AREA 3''"
  "strip (asc ''address 4'') = asc ''address 4''"
  "is_address_line (asc ''area 1'')"
  "\<not> is_address_line (asc ''order area 2'')"
  "\<not> is_address_line (asc ''AREA 3'')"
  "is_address_line (asc ''address 4'')"
  "is_address_line (map to_lower (asc ''AREA 3''))"
  by (simp_all add: eval_chars eval_keywords)

text \<open>
  C9 (as amended). The Address is the newline-join, in scan order, of exactly those
  stripped lines of the block that contain an address keyword and no order keyword,
  where both tests are the case-sensitive substring test \<^verbatim>\<open>keyword in line\<close>.
\<close>

theorem address_is_filtered_lines:
  "Address (process_customer_block b) =
     join newline (filter is_address_line (map strip (block_lines b)))"
  by (simp add: process_customer_block_fields scan_lines_address initial_fields_def)

theorem address_is_filtered_lines_witness:
  "Address (process_customer_block
      (join newline [asc ''area 1'', asc ''order area 2'', asc ''AREA 3'', asc ''address 4'']))
     = join newline [asc ''area 1'', asc ''address 4'']"
  using address_is_filtered_lines
    [of "join newline [asc ''area 1'', asc ''order area 2'', asc ''AREA 3'', asc ''address 4'']"]
  by (simp only: area_lines list.map area_line_facts filter.simps if_True if_False)

text \<open>
  Counterexample to C9 as stated. The line \<^verbatim>\<open>AREA 3\<close> contains the keyword \<^verbatim>\<open>area\<close> when case is ignored (its
  lower-cased form passes the test), and it is not taken into the Address.
\<close>

theorem address_case_counterexample:
  "is_address_line (map to_lower (asc ''AREA 3''))
   \<and> Address (process_customer_block (asc ''AREA 3'')) = []"
proof -
  have "block_lines (asc ''AREA 3'') = [asc ''AREA 3'']"
    by (simp add: block_lines_def eval_chars)
  then have "st_address_lines initial_fields
      @ filter is_address_line (map strip (block_lines (asc ''AREA 3''))) = []"
    using area_line_facts by (simp add: initial_fields_def)
  then have "st_address_lines (scan_lines 0 (block_lines (asc ''AREA 3'')) initial_fields) = []"
    by (simp only: scan_lines_address)
  then have "Address (process_customer_block (asc ''AREA 3'')) = []"
    by (simp add: process_customer_block_fields)
  with area_line_facts(9) show ?thesis by blast
qed


subsection \<open>The shape of the phone number\<close>

lemma is_decimal_devanagari:
  "0x966 \<le> c \<Longrightarrow> c \<le> 0x96F \<Longrightarrow> is_decimal c"
  by (simp add: is_decimal_def decimal_ranges_def)

lemma process_customer_block_phone_shape:
  "Phone (process_customer_block b) = [] \<or> phone_shape (Phone (process_customer_block b))"
  using scan_lines_phone_shape [of initial_fields 0 "block_lines b"]
  by (simp add: process_customer_block_fields initial_fields_def)

lemmas eval_phone = scan_lines.simps set_phone_def extract_phone_number_def phone_patterns_def
  initial_fields_def

lemma ascii_phone_block:
  "Phone (process_customer_block (asc ''01712345678'')) = asc ''01712345678''"
  by (simp add: process_customer_block_fields block_lines_def eval_phone eval_chars eval_regex
        del: rmatch.simps(3))

lemma devanagari_phone_block:
  "Phone (process_customer_block
      [0x966, 0x967, 0x96D, 0x967, 0x968, 0x969, 0x96A, 0x96B, 0x96C, 0x96D, 0x96E])
     = [0x966, 0x967, 0x96D, 0x967, 0x968, 0x969, 0x96A, 0x96B, 0x96C, 0x96D, 0x96E]"
  by (simp add: process_customer_block_fields block_lines_def eval_phone eval_chars eval_regex
        is_decimal_devanagari del: rmatch.simps(3))

text \<open>
  C10 (as amended). The Phone produced by \<^verbatim>\<open>process_customer_block\<close> is either empty
  or has exactly eleven characters, each of the regex class \<^verbatim>\<open>\d\<close> (a Unicode decimal
  digit) and none a Bengali digit; so \<^verbatim>\<open>validate_data\<close> reports Phone exactly when
  Phone is empty: its test of the length never decides on its own.
\<close>

theorem phone_empty_or_eleven_digits:
  "(Phone (process_customer_block b) = [] \<or> phone_shape (Phone (process_customer_block b)))
   \<and> (asc ''Phone'' \<in> set (validate_data (process_customer_block b))
        \<longleftrightarrow> Phone (process_customer_block b) = [])"
proof -
  note shape = process_customer_block_phone_shape [of b]
  then have "Phone (process_customer_block b) = [] \<or> length (Phone (process_customer_block b)) = 11"
    by (auto simp: phone_shape_def)
  then have "asc ''Phone'' \<in> set (validate_data (process_customer_block b))
        \<longleftrightarrow> Phone (process_customer_block b) = []"
    using validate_data_members(3) [of "process_customer_block b"] by auto
  with shape show ?thesis by blast
qed

theorem phone_empty_or_eleven_digits_witness:
  "Phone (process_customer_block (asc ''01712345678'')) = asc ''01712345678''
   \<and> phone_shape (asc ''01712345678'')
   \<and> asc ''Phone'' \<notin> set (validate_data (process_customer_block (asc ''01712345678'')))"
proof -
  have ne: "asc ''01712345678'' \<noteq> []"
    by (simp add: asc_def)
  with phone_empty_or_eleven_digits [of "asc ''01712345678''"] ascii_phone_block
  have "phone_shape (asc ''01712345678'')"
    and "asc ''Phone'' \<notin> set (validate_data (process_customer_block (asc ''01712345678'')))"
    by simp_all
  with ascii_phone_block show ?thesis by blast
qed

text \<open>
  Counterexample to C10 as stated. A line of eleven Devanagari digits (U+0966 .. U+096F) is matched by \<^verbatim>\<open>\d{11}\<close> and
  becomes the Phone as it is; its characters are not ASCII digits.
\<close>

theorem phone_not_ascii_counterexample:
  "Phone (process_customer_block
      [0x966, 0x967, 0x96D, 0x967, 0x968, 0x969, 0x96A, 0x96B, 0x96C, 0x96D, 0x96E])
     = [0x966, 0x967, 0x96D, 0x967, 0x968, 0x969, 0x96A, 0x96B, 0x96C, 0x96D, 0x96E]
   \<and> \<not> (0x30 \<le> (0x966::nat) \<and> (0x966::nat) \<le> 0x39)"
  using devanagari_phone_block by simp

subsection \<open>Export ordering\<close>

text \<open>
  C7. When \<^verbatim>\<open>main\<close> produces rows, their records are the valid records (those with
  no defect) in the order of their blocks, and their Invoice numbers are 1, 2, ..., K
  in that order, K being the number of valid records: strictly increasing and
  without gaps, whatever records were rejected in between.
\<close>

theorem export_rows_numbered:
  assumes "main_rows user_input = Inr rows"
  shows "map snd rows = filter (\<lambda>d. validate_data d = [])
           (map process_customer_block (extract_customer_blocks user_input))
         \<and> map fst rows = [1 ..< Suc (length rows)]
         \<and> sorted_wrt (<) (map fst rows)"
proof -
  define all_data where "all_data = fst (process_blocks 1 (extract_customer_blocks user_input) ([], []))"
  have valid: "all_data = filter (\<lambda>d. validate_data d = [])
           (map process_customer_block (extract_customer_blocks user_input))"
    unfolding all_data_def by (simp add: process_blocks_fst)
  from assms have rows: "rows = zip [1 ..< Suc (length all_data)] all_data"
    unfolding main_rows_def all_data_def
    by (simp add: Let_def split: if_splits prod.splits)
  have l: "length [1 ..< Suc (length all_data)] = length all_data"
    by (simp del: upt_Suc)
  from rows l have len: "length rows = length all_data"
    by (simp del: upt_Suc)
  have "map snd rows = all_data"
    unfolding rows using l by (rule map_snd_zip)
  moreover have "map fst rows = [1 ..< Suc (length all_data)]"
    unfolding rows using l by (rule map_fst_zip)
  moreover have "sorted_wrt (<) [1 ..< Suc (length all_data)]"
    by (rule sorted_wrt_upt)
  ultimately show ?thesis
    using valid len by (simp del: upt_Suc)
qed


lemma example_blocks:
  "extract_customer_blocks example_input = [example_block_1, example_block_2, example_block_3]"
  by (simp add: example_input_def example_block_1_def example_block_2_def example_block_3_def
        extract_customer_blocks_def split_blocks_def clean_lines_def
        starts_with_name_def name_start_def eval_chars eval_regex eval_keywords
        del: rmatch.simps(3))

lemma example_input_not_blank: "strip example_input \<noteq> []"
  by (simp add: example_input_def eval_chars)

lemma example_lines:
  "block_lines example_block_1 = [asc ''nam area 01234567890'', asc ''order'', asc ''5'']"
  "block_lines example_block_2 = [asc ''nam'']"
  "block_lines example_block_3 = [asc ''name area 01234567890'', asc ''order'', asc ''7'']"
  by (simp_all add: example_block_1_def example_block_2_def example_block_3_def
        block_lines_def eval_chars)

lemma example_scan_1:
  "scan_lines 0 [asc ''nam area 01234567890'', asc ''order'', asc ''5''] initial_fields =
     \<lparr>st_name = asc ''area 01234567890'', st_phone = asc ''01234567890'',
      st_address_lines = [asc ''nam area 01234567890''], st_note = asc ''5'',
      st_amount = Some (asc ''5'')\<rparr>"
  by (simp add: eval_scan eval_chars eval_regex eval_keywords del: rmatch.simps(3))

lemma example_scan_2:
  "scan_lines 0 [asc ''nam''] initial_fields = initial_fields"
  by (simp add: eval_scan eval_chars eval_regex eval_keywords del: rmatch.simps(3))

lemma example_scan_3:
  "scan_lines 0 [asc ''name area 01234567890'', asc ''order'', asc ''7''] initial_fields =
     \<lparr>st_name = asc ''area 01234567890'', st_phone = asc ''01234567890'',
      st_address_lines = [asc ''name area 01234567890''], st_note = asc ''7'',
      st_amount = Some (asc ''7'')\<rparr>"
  by (simp add: eval_scan eval_chars eval_regex eval_keywords del: rmatch.simps(3))

lemma example_records:
  "process_customer_block example_block_1 = example_record_1"
  "process_customer_block example_block_2 = example_record_2"
  "process_customer_block example_block_3 = example_record_3"
  unfolding process_customer_block_def Let_def example_lines
    example_scan_1 example_scan_2 example_scan_3
    example_record_1_def example_record_2_def example_record_3_def
  by (simp_all add: initial_fields_def)

lemma example_valid:
  "validate_data example_record_1 = []"
  "validate_data example_record_2 = [asc ''Name'', asc ''Phone'', asc ''Address'', asc ''Amount'']"
  "validate_data example_record_3 = []"
  by (simp_all add: validate_data_def example_record_1_def example_record_2_def
        example_record_3_def asc_def)

lemma example_rows:
  "main_rows example_input = Inr [(1, example_record_1), (2, example_record_3)]"
proof -
  have "process_blocks 1 [example_block_1, example_block_2, example_block_3] ([], []) =
      ([example_record_1, example_record_3],
       [(2, example_record_2, [asc ''Name'', asc ''Phone'', asc ''Address'', asc ''Amount''])])"
    by (simp add: example_records example_valid Let_def)
  then show ?thesis
    by (simp add: main_rows_def example_blocks example_input_not_blank upt_rec)
qed

theorem export_rows_numbered_witness:
  "main_rows example_input = Inr [(1, example_record_1), (2, example_record_3)]
   \<and> map process_customer_block (extract_customer_blocks example_input)
       = [example_record_1, example_record_2, example_record_3]
   \<and> validate_data example_record_2 \<noteq> []
   \<and> filter (\<lambda>d. validate_data d = [])
        (map process_customer_block (extract_customer_blocks example_input))
       = [example_record_1, example_record_3]
   \<and> map fst [(1::nat, example_record_1), (2, example_record_3)] = [1, 2]"
proof -
  note spec = export_rows_numbered [OF example_rows]
  from spec have "filter (\<lambda>d. validate_data d = [])
        (map process_customer_block (extract_customer_blocks example_input))
       = [example_record_1, example_record_3]"
    by simp
  moreover have "map process_customer_block (extract_customer_blocks example_input)
       = [example_record_1, example_record_2, example_record_3]"
    by (simp add: example_blocks example_records)
  moreover have "validate_data example_record_2 \<noteq> []"
    by (simp add: example_valid)
  ultimately show ?thesis
    using example_rows by simp
qed


subsection \<open>The segmenter\<close>

subsection \<open>Name markers\<close>

lemma rmatch_lit:
  "rmatch True (lit m) pos s cap = (if ci_prefix m s then [(length m, cap)] else [])"
proof (induction m arbitrary: pos s)
  case Nil
  then show ?case by simp
next
  case (Cons k ks)
  show ?case
  proof (cases s)
    case Nil
    then show ?thesis by simp
  next
    case (Cons c cs)
    with Cons.IH [of "pos + 1" cs] show ?thesis by auto
  qed
qed

lemma re_match_name_start:
  "re_match True name_start line \<noteq> None \<longleftrightarrow> begins_with_marker line"
  by (simp add: re_match_def name_start_def rmatch_lit begins_with_marker_def name_markers_def
        del: rmatch.simps(3) add: rmatch_Seq_eval split: list.splits)

lemma starts_with_name_iff: "starts_with_name lines \<longleftrightarrow> name_marked lines"
  by (simp add: starts_with_name_def name_marked_def list_ex_iff re_match_name_start [symmetric])

subsection \<open>Line endings\<close>

lemma rmatch_lit_plain:
  "rmatch False (lit m) pos s cap = (if starts_with m s then [(length m, cap)] else [])"
proof (induction m arbitrary: pos s)
  case Nil
  then show ?case by simp
next
  case (Cons k ks)
  show ?case
  proof (cases s)
    case Nil
    then show ?thesis by simp
  next
    case (Cons c cs)
    with Cons.IH [of "pos + 1" cs] show ?thesis by auto
  qed
qed

lemma sub_crlf: "sub_from False (lit [0xD, 0xA]) newline pos s = crlf_to_lf s"
proof (induction s arbitrary: pos rule: crlf_to_lf.induct)
  case 1
  then show ?case by (simp add: rmatch_lit_plain)
next
  case (2 c)
  then show ?case by (simp add: rmatch_lit_plain)
next
  case (3 c d cs)
  then show ?case by (simp add: rmatch_lit_plain newline_def)
qed

lemma sub_cr: "sub_from False (lit [0xD]) newline pos s = map (\<lambda>c. if c = 0xD then 0xA else c) s"
  by (induction s arbitrary: pos) (simp_all add: rmatch_lit_plain newline_def)

lemma normalize_newlines_eq:
  "map (\<lambda>c. if c = 0xD then 0xA else c) (crlf_to_lf s) = normalize_newlines s"
proof (induction s rule: crlf_to_lf.induct)
  case 1
  then show ?case by simp
next
  case (2 c)
  then show ?case by simp
next
  case (3 c d cs)
  then show ?case by (cases cs) auto
qed

lemma line_ending_subs:
  "re_sub False (lit [0xD]) newline (re_sub False (lit [0xD, 0xA]) newline s) = normalize_newlines s"
  unfolding re_sub_def sub_crlf sub_cr normalize_newlines_eq ..

subsection \<open>Lines and blank lines\<close>

lemma is_space_newline [simp]: "is_space 0xA"
  by (simp add: is_space_def whitespace_def)

lemma blank_simps [simp]:
  "blank []"
  "blank (c # cs) \<longleftrightarrow> is_space c \<and> blank cs"
  "blank (xs @ ys) \<longleftrightarrow> blank xs \<and> blank ys"
  by (auto simp: blank_def)

lemma dropWhile_Nil_blank: "dropWhile is_space l = [] \<longleftrightarrow> blank l"
  by (simp add: blank_def)

lemma strip_Nil_iff: "strip l = [] \<longleftrightarrow> blank l"
proof
  assume "strip l = []"
  then have "\<forall>c \<in> set (dropWhile is_space l). is_space c"
    by (simp add: strip_def)
  then have "dropWhile is_space l = []"
    using hd_dropWhile [of is_space l] by (cases "dropWhile is_space l") auto
  then show "blank l" by (simp add: blank_def)
next
  assume "blank l"
  then show "strip l = []"
    by (auto simp: strip_def blank_def dest: set_dropWhileD)
qed

lemma split_on_not_Nil [simp]: "split_on sep s \<noteq> []"
  by (induction s) (auto split: list.splits)

lemma split_on_no_sep: "sep \<notin> set l \<Longrightarrow> split_on sep l = [l]"
  by (induction l) auto

lemma split_on_append: "sep \<notin> set l \<Longrightarrow> split_on sep (l @ sep # s) = l # split_on sep s"
  by (induction l) auto

lemma split_on_lines: "l \<in> set (split_on sep s) \<Longrightarrow> sep \<notin> set l"
proof (induction s arbitrary: l)
  case Nil
  then show ?case by simp
next
  case (Cons c cs)
  then show ?case
    by (cases "split_on sep cs") (auto split: if_splits)
qed

lemma join_newline_Cons: "L \<noteq> [] \<Longrightarrow> join newline (l # L) = l @ 0xA # join newline L"
  by (cases L) (simp_all add: newline_def)

lemma join_newline_single [simp]: "join newline [l] = l"
  by simp

lemma join_split_on: "join newline (split_on 0xA s) = s"
proof (induction s)
  case Nil
  then show ?case by simp
next
  case (Cons c cs)
  show ?case
  proof (cases "c = 0xA")
    case True
    with Cons show ?thesis by (simp add: join_newline_Cons)
  next
    case False
    obtain p ps where sp: "split_on 0xA cs = p # ps"
      by (cases "split_on 0xA cs") auto
    with Cons False show ?thesis
      by (cases ps) (auto simp: newline_def)
  qed
qed

lemma clean_lines_line:
  "0xA \<notin> set l \<Longrightarrow> clean_lines l = (if blank l then [] else [strip l])"
  by (simp add: clean_lines_def split_on_no_sep strip_Nil_iff)

lemma clean_lines_append:
  "0xA \<notin> set l \<Longrightarrow>
     clean_lines (l @ 0xA # q) = (if blank l then [] else [strip l]) @ clean_lines q"
  by (simp add: clean_lines_def split_on_append strip_Nil_iff)

lemma first_newline_cases:
  assumes "0xA \<notin> set l" and "l @ 0xA # X = w @ 0xA # Y"
  shows "(w = l \<and> X = Y) \<or> (\<exists>w'. w = l @ 0xA # w' \<and> X = w' @ 0xA # Y)"
  using assms
proof (induction l arbitrary: w)
  case Nil
  then show ?case by (cases w) auto
next
  case (Cons c l)
  then obtain w1 where w: "w = c # w1" and eq: "l @ 0xA # X = w1 @ 0xA # Y"
    by (cases w) auto
  from Cons.prems(1) have "0xA \<notin> set l" by simp
  from Cons.IH [OF this eq] w show ?case by auto
qed

lemma line_boundary:
  assumes "L \<noteq> []" and "\<forall>l \<in> set L. 0xA \<notin> set l"
    and "join newline L = w @ 0xA # rest" and "blank w"
  shows "\<exists>B L'. L = B @ L' \<and> B \<noteq> [] \<and> (\<forall>b \<in> set B. blank b) \<and> L' \<noteq> []
           \<and> rest = join newline L'"
  using assms
proof (induction L arbitrary: w)
  case Nil
  then show ?case by simp
next
  case (Cons l L)
  show ?case
  proof (cases L)
    case Nil
    with Cons.prems have "l = w @ 0xA # rest" and "0xA \<notin> set l" by simp_all
    then show ?thesis by auto
  next
    case (Cons l2 Lr)
    then have L: "L \<noteq> []" by simp
    from Cons.prems(2) have nl: "0xA \<notin> set l" and nL: "\<forall>l \<in> set L. 0xA \<notin> set l"
      by simp_all
    from Cons.prems(3) L have "l @ 0xA # join newline L = w @ 0xA # rest"
      by (simp add: join_newline_Cons)
    from first_newline_cases [OF nl this]
    show ?thesis
    proof
      assume "w = l \<and> join newline L = rest"
      with Cons.prems(4) L have "l # L = [l] @ L \<and> [l] \<noteq> [] \<and> (\<forall>b \<in> set [l]. blank b)
          \<and> L \<noteq> [] \<and> rest = join newline L"
        by simp
      then show ?thesis by blast
    next
      assume "\<exists>w'. w = l @ 0xA # w' \<and> join newline L = w' @ 0xA # rest"
      then obtain w' where w: "w = l @ 0xA # w'" and j: "join newline L = w' @ 0xA # rest"
        by blast
      from w Cons.prems(4) have bl: "blank l" and bw: "blank w'" by simp_all
      from Cons.IH [OF L nL j bw] obtain B L' where
        "L = B @ L'" "B \<noteq> []" "\<forall>b \<in> set B. blank b" "L' \<noteq> []" "rest = join newline L'"
        by blast
      with bl have "l # L = (l # B) @ L' \<and> l # B \<noteq> [] \<and> (\<forall>b \<in> set (l # B). blank b)
          \<and> L' \<noteq> [] \<and> rest = join newline L'"
        by simp
      then show ?thesis by blast
    qed
  qed
qed

subsection \<open>Paragraphs\<close>

lemma paragraphs_blank_Cons: "blank b \<Longrightarrow> paragraphs (b # M) = paragraphs M"
  by (cases M) simp_all

lemma paragraphs_blank_append: "\<forall>b \<in> set B. blank b \<Longrightarrow> paragraphs (B @ M) = paragraphs M"
  by (induction B) (simp_all add: paragraphs_blank_Cons)

lemma paragraphs_then_blank:
  assumes "\<not> blank l" and "B \<noteq> []" and "\<forall>b \<in> set B. blank b"
  shows "paragraphs (l # B @ M) = [strip l] # paragraphs M"
proof -
  from assms(2) obtain b B' where B: "B = b # B'" by (cases B) auto
  with assms(3) have "blank b" by simp
  with assms(1) B have "paragraphs (l # B @ M) = [strip l] # paragraphs (B @ M)"
    by simp
  with assms(3) show ?thesis by (simp add: paragraphs_blank_append)
qed

lemma paragraphs_nonblank:
  assumes "\<not> blank l"
  shows "paragraphs (l # M) \<noteq> [] \<and> hd (paragraphs (l # M)) \<noteq> []"
  using assms by (cases M) (auto split: list.splits)

lemma paragraphs_nonblank_nonblank:
  assumes "\<not> blank l" and "\<not> blank l1"
  shows "paragraphs (l # l1 # M) = (strip l # hd (paragraphs (l1 # M))) # tl (paragraphs (l1 # M))"
proof -
  from paragraphs_nonblank [OF assms(2), of M] obtain g gs where "paragraphs (l1 # M) = g # gs"
    by (cases "paragraphs (l1 # M)") auto
  with assms show ?thesis by simp
qed

subsection \<open>What the two blank-line patterns match\<close>

lemma rmatch_Atom_results:
  assumes "(n, c) \<in> set (rmatch ic (Atom a) pos s cap)"
  shows "n = 1 \<and> c = cap \<and> (\<exists>x rest. s = x # rest \<and> atom_ok ic a x)"
  using assms by (auto split: list.splits if_splits)

lemma rmatch_Seq_intro:
  assumes "(n1, c1) \<in> set (rmatch ic r1 pos s cap)"
    and "(n2, c2) \<in> set (rmatch ic r2 (pos + n1) (drop n1 s) c1)"
  shows "(n1 + n2, c2) \<in> set (rmatch ic (Seq r1 r2) pos s cap)"
  using assms by force

lemma rmatch_space_run:
  assumes "(n, c) \<in> set (rmatch False (Rep Space 0 None) pos s cap)"
  shows "c = cap \<and> n \<le> length s \<and> length (take n s) = n \<and> blank (take n s)"
proof -
  from rmatch_Rep_results [OF assms]
  have c: "c = cap" and n: "n \<le> length (takeWhile (atom_ok False Space) s)"
    by simp_all
  from take_run [OF n] have "length (take n s) = n" and "\<forall>x \<in> set (take n s). is_space x"
    by simp_all
  with c show ?thesis by (simp add: blank_def)
qed

lemma rmatch_space_then_newline:
  assumes "(n, c) \<in> set (rmatch False (Seq (Rep Space 0 None) (Atom (Lit 0xA))) pos s cap)"
  shows "\<exists>w rest. s = w @ 0xA # rest \<and> blank w \<and> n = length w + 1 \<and> c = cap"
proof -
  from rmatch_Seq_results [OF assms] obtain n1 c1 n2 where
    r1: "(n1, c1) \<in> set (rmatch False (Rep Space 0 None) pos s cap)"
    and r2: "(n2, c) \<in> set (rmatch False (Atom (Lit 0xA)) (pos + n1) (drop n1 s) c1)"
    and n: "n = n1 + n2"
    by blast
  from rmatch_space_run [OF r1] have c1: "c1 = cap" and len: "length (take n1 s) = n1"
    and bl: "blank (take n1 s)"
    by simp_all
  from rmatch_Atom_results [OF r2] obtain rest where n2: "n2 = 1" and c: "c = c1"
    and d: "drop n1 s = 0xA # rest"
    by auto
  have "s = take n1 s @ drop n1 s" by simp
  with d have "s = take n1 s @ 0xA # rest" by simp
  with bl len n n2 c c1 show ?thesis by auto
qed

lemma gap_split_pattern: "gap_regex split_pattern"
  unfolding gap_regex_def split_pattern_def
proof (intro allI impI)
  fix pos s cap n c
  assume "(n, c) \<in> set (rmatch False
      (Seq (Atom (Lit 0xA)) (Seq (Rep Space 0 None) (Atom (Lit 0xA)))) pos s cap)"
  from rmatch_Seq_results [OF this] obtain n1 c1 n2 where
    r1: "(n1, c1) \<in> set (rmatch False (Atom (Lit 0xA)) pos s cap)"
    and r2: "(n2, c) \<in> set (rmatch False (Seq (Rep Space 0 None) (Atom (Lit 0xA)))
                (pos + n1) (drop n1 s) c1)"
    and n: "n = n1 + n2"
    by blast
  from rmatch_Atom_results [OF r1] obtain r where n1: "n1 = 1" and s: "s = 0xA # r"
    by auto
  from rmatch_space_then_newline [OF r2] n1 s obtain w rest where
    "r = w @ 0xA # rest" "blank w" "n2 = length w + 1"
    by auto
  with s n n1 show "\<exists>w rest. s = 0xA # w @ 0xA # rest \<and> blank w \<and> n = length w + 2"
    by auto
qed

lemma rmatch_newlines:
  assumes "(n, c) \<in> set (rmatch False (Rep (Lit 0xA) 1 None) pos s cap)"
  shows "\<exists>u. take n s = u @ [0xA] \<and> blank u \<and> n = length u + 1"
proof -
  from rmatch_Rep_results [OF assms]
  have n1: "1 \<le> n" and n: "n \<le> length (takeWhile (atom_ok False (Lit 0xA)) s)"
    by simp_all
  from take_run [OF n] have len: "length (take n s) = n"
    and all: "\<forall>x \<in> set (take n s). x = 0xA"
    by simp_all
  from len n1 have ne: "take n s \<noteq> []" by auto
  then have t: "take n s = butlast (take n s) @ [last (take n s)]" by simp
  from ne all have l: "last (take n s) = 0xA" by simp
  from all have "\<forall>x \<in> set (butlast (take n s)). is_space x"
    by (metis in_set_butlastD is_space_newline)
  then have "blank (butlast (take n s))" by (simp add: blank_def)
  moreover from t l have "take n s = butlast (take n s) @ [0xA]" by simp
  moreover from len n1 have "n = length (butlast (take n s)) + 1" by simp
  ultimately show ?thesis by blast
qed

lemma gap_collapse_pattern: "gap_regex collapse_pattern"
  unfolding gap_regex_def collapse_pattern_def
proof (intro allI impI)
  fix pos s cap n c
  assume "(n, c) \<in> set (rmatch False
      (Seq (Atom (Lit 0xA)) (Seq (Rep Space 0 None)
         (Seq (Atom (Lit 0xA)) (Seq (Rep Space 0 None) (Rep (Lit 0xA) 1 None))))) pos s cap)"
  from rmatch_Seq_results [OF this] obtain n1 c1 n2 where
    r1: "(n1, c1) \<in> set (rmatch False (Atom (Lit 0xA)) pos s cap)"
    and r2: "(n2, c) \<in> set (rmatch False (Seq (Rep Space 0 None)
         (Seq (Atom (Lit 0xA)) (Seq (Rep Space 0 None) (Rep (Lit 0xA) 1 None))))
                (pos + n1) (drop n1 s) c1)"
    and n: "n = n1 + n2"
    by blast
  from rmatch_Atom_results [OF r1] obtain r where n1: "n1 = 1" and s: "s = 0xA # r"
    by auto
  from r2 n1 s have r2': "(n2, c) \<in> set (rmatch False (Seq (Rep Space 0 None)
         (Seq (Atom (Lit 0xA)) (Seq (Rep Space 0 None) (Rep (Lit 0xA) 1 None))))
                (pos + 1) r c1)"
    by simp
  from rmatch_Seq_results [OF r2'] obtain m1 d1 m2 where
    a1: "(m1, d1) \<in> set (rmatch False (Rep Space 0 None) (pos + 1) r c1)"
    and a2: "(m2, c) \<in> set (rmatch False
         (Seq (Atom (Lit 0xA)) (Seq (Rep Space 0 None) (Rep (Lit 0xA) 1 None)))
                (pos + 1 + m1) (drop m1 r) d1)"
    and n2: "n2 = m1 + m2"
    by blast
  from rmatch_space_run [OF a1] have len1: "length (take m1 r) = m1" and bl1: "blank (take m1 r)"
    by simp_all
  from rmatch_Seq_results [OF a2] obtain k1 e1 k2 where
    b1: "(k1, e1) \<in> set (rmatch False (Atom (Lit 0xA)) (pos + 1 + m1) (drop m1 r) d1)"
    and b2: "(k2, c) \<in> set (rmatch False (Seq (Rep Space 0 None) (Rep (Lit 0xA) 1 None))
                (pos + 1 + m1 + k1) (drop k1 (drop m1 r)) e1)"
    and m2: "m2 = k1 + k2"
    by blast
  from rmatch_Atom_results [OF b1] obtain r2 where k1: "k1 = 1" and d: "drop m1 r = 0xA # r2"
    by auto
  from b2 k1 d have b2': "(k2, c) \<in> set (rmatch False (Seq (Rep Space 0 None) (Rep (Lit 0xA) 1 None))
                (pos + 1 + m1 + 1) r2 e1)"
    by simp
  from rmatch_Seq_results [OF b2'] obtain j1 f1 j2 where
    c1: "(j1, f1) \<in> set (rmatch False (Rep Space 0 None) (pos + 1 + m1 + 1) r2 e1)"
    and c2: "(j2, c) \<in> set (rmatch False (Rep (Lit 0xA) 1 None)
                (pos + 1 + m1 + 1 + j1) (drop j1 r2) f1)"
    and k2: "k2 = j1 + j2"
    by blast
  from rmatch_space_run [OF c1] have len2: "length (take j1 r2) = j1" and bl2: "blank (take j1 r2)"
    by simp_all
  from rmatch_newlines [OF c2] obtain u where
    u: "take j2 (drop j1 r2) = u @ [0xA]" and blu: "blank u" and j2: "j2 = length u + 1"
    by blast
  define w where "w = take m1 r @ 0xA # take j1 r2 @ u"
  define rest where "rest = drop j2 (drop j1 r2)"
  have "r2 = take j1 r2 @ take j2 (drop j1 r2) @ drop j2 (drop j1 r2)"
    by (metis append_take_drop_id)
  with u have r2: "r2 = take j1 r2 @ u @ 0xA # rest"
    by (simp add: rest_def)
  have "r = take m1 r @ drop m1 r" by simp
  with d r2 have "r = take m1 r @ 0xA # take j1 r2 @ u @ 0xA # rest"
    by simp
  then have "r = w @ 0xA # rest" by (simp add: w_def)
  moreover have "blank w"
    using bl1 bl2 blu by (simp add: w_def)
  moreover have "n = length w + 2"
    using n n1 n2 m2 k1 k2 j2 len1 len2 by (simp add: w_def)
  ultimately show "\<exists>w rest. s = 0xA # w @ 0xA # rest \<and> blank w \<and> n = length w + 2"
    using s by blast
qed

lemma split_pattern_complete:
  assumes "0xA \<in> set (takeWhile is_space R)"
  shows "rmatch False split_pattern pos (0xA # R) cap \<noteq> []"
proof -
  from assms obtain j where j: "j < length (takeWhile is_space R)"
    and at: "takeWhile is_space R ! j = 0xA"
    by (auto simp: in_set_conv_nth)
  have le: "length (takeWhile is_space R) \<le> length R"
    by (rule length_takeWhile_le)
  from j at have Rj: "R ! j = 0xA"
    by (simp add: takeWhile_nth)
  from j le have jR: "j < length R" by simp
  then have d: "drop j R = 0xA # drop (Suc j) R"
    using Rj by (simp add: Cons_nth_drop_Suc [symmetric])
  have "takeWhile (atom_ok False Space) R = takeWhile is_space R"
    by (rule takeWhile_cong) simp_all
  with j have "j \<in> set (rev [0 ..< Suc (length (takeWhile (atom_ok False Space) R))])"
    by simp
  then have run: "(j, cap) \<in> set (rmatch False (Rep Space 0 None) (pos + 1) R cap)"
    by (simp add: Let_def image_iff del: upt_Suc)
  from d have nl: "(1, cap) \<in> set (rmatch False (Atom (Lit 0xA)) (pos + 1 + j) (drop j R) cap)"
    by simp
  from rmatch_Seq_intro [OF run nl]
  have inner: "(j + 1, cap) \<in> set (rmatch False (Seq (Rep Space 0 None) (Atom (Lit 0xA)))
      (pos + 1) (drop 1 (0xA # R)) cap)"
    by simp
  have first: "(1, cap) \<in> set (rmatch False (Atom (Lit 0xA)) pos (0xA # R) cap)"
    by simp
  from rmatch_Seq_intro [OF first inner]
  have "(1 + (j + 1), cap) \<in> set (rmatch False split_pattern pos (0xA # R) cap)"
    by (simp only: split_pattern_def)
  then show ?thesis by auto
qed

subsection \<open>Splitting at blank lines\<close>

lemma split_from_not_Nil [simp]: "split_from ic r pos s \<noteq> []"
  by (induction ic r pos s rule: split_from.induct) (auto split: list.splits)

lemma gap_no_match:
  assumes "gap_regex r" and "s = [] \<or> hd s \<noteq> 0xA"
  shows "rmatch False r pos s cap = []"
proof (cases "rmatch False r pos s cap")
  case Nil
  then show ?thesis .
next
  case (Cons a rest)
  obtain n c where "a = (n, c)" by (cases a)
  with Cons have "(n, c) \<in> set (rmatch False r pos s cap)" by simp
  with assms(1) obtain w rest' where "s = 0xA # w @ 0xA # rest'"
    unfolding gap_regex_def by blast
  with assms(2) show ?thesis by simp
qed

lemma gap_match:
  assumes "gap_regex r" and "rmatch False r pos s cap = (n, c) # ms"
  shows "\<exists>w rest. s = 0xA # w @ 0xA # rest \<and> blank w \<and> n = length w + 2"
proof -
  from assms(2) have "(n, c) \<in> set (rmatch False r pos s cap)" by simp
  with assms(1) show ?thesis unfolding gap_regex_def by blast
qed

lemma split_prefix:
  assumes "gap_regex r" and "0xA \<notin> set l"
  shows "split_from False r pos (l @ s) =
     (l @ hd (split_from False r (pos + length l) s)) # tl (split_from False r (pos + length l) s)"
  using assms(2)
proof (induction l arbitrary: pos)
  case Nil
  then show ?case by simp
next
  case (Cons c l)
  then have c: "c \<noteq> 0xA" and l: "0xA \<notin> set l" by auto
  from c have "rmatch False r pos (c # l @ s) None = []"
    using gap_no_match [OF assms(1)] by simp
  with Cons.IH [OF l, of "Suc pos"] show ?case by simp
qed

lemma split_newline_match:
  assumes "gap_regex r" and "rmatch False r pos (0xA # R) None = (n, c) # ms"
  shows "\<exists>w rest. R = w @ 0xA # rest \<and> blank w
           \<and> split_from False r pos (0xA # R) = [] # split_from False r (pos + n) rest"
proof -
  from gap_match [OF assms] obtain w rest where
    R: "R = w @ 0xA # rest" and w: "blank w" and n: "n = length w + 2"
    by auto
  from R n have "drop (n - 1) R = rest" by simp
  with assms(2) n have "split_from False r pos (0xA # R) = [] # split_from False r (pos + n) rest"
    by simp
  with R w show ?thesis by blast
qed

lemma split_newline_no_match:
  assumes "rmatch False r pos (0xA # R) None = []"
  shows "split_from False r pos (0xA # R) =
     (0xA # hd (split_from False r (Suc pos) R)) # tl (split_from False r (Suc pos) R)"
  using assms by (cases "split_from False r (Suc pos) R") simp_all

lemma blank_line_run:
  assumes "blank l1" and "L1 \<noteq> []"
  shows "0xA \<in> set (takeWhile is_space (join newline (l1 # L1)))"
proof -
  from assms(2) have "join newline (l1 # L1) = l1 @ 0xA # join newline L1"
    by (rule join_newline_Cons)
  moreover from assms(1) have "takeWhile is_space (l1 @ 0xA # join newline L1)
      = l1 @ takeWhile is_space (0xA # join newline L1)"
    by (simp add: takeWhile_append2 blank_def)
  ultimately show ?thesis by simp
qed

lemma split_lines:
  assumes gap: "gap_regex r"
    and complete: "\<And>pos R. 0xA \<in> set (takeWhile is_space R)
                     \<Longrightarrow> rmatch False r pos (0xA # R) None \<noteq> []"
    and "L \<noteq> []" and "\<forall>l \<in> set L. 0xA \<notin> set l"
  shows "filter (\<lambda>ls. ls \<noteq> []) (map clean_lines (split_from False r pos (join newline L)))
           = paragraphs L
       \<and> (\<not> blank (hd L) \<longrightarrow>
            clean_lines (hd (split_from False r pos (join newline L))) = hd (paragraphs L)
          \<and> filter (\<lambda>ls. ls \<noteq> []) (map clean_lines (tl (split_from False r pos (join newline L))))
              = tl (paragraphs L))"
  using assms(3,4)
proof (induction L arbitrary: pos rule: length_induct)
  case (1 L)
  from "1.prems"(1) obtain l L' where L: "L = l # L'" by (cases L) auto
  with "1.prems"(2) have nl: "0xA \<notin> set l" and nL': "\<forall>x \<in> set L'. 0xA \<notin> set x"
    by simp_all
  show ?case
  proof (cases L')
    case Nil
    have "split_from False r pos (l @ []) = [l]"
      using split_prefix [OF gap nl, of pos "[]"] by simp
    with L Nil nl show ?thesis
      by (simp add: clean_lines_line)
  next
    case (Cons l1 L1)
    then have L'ne: "L' \<noteq> []" by simp
    define R where "R = join newline L'"
    define pos' where "pos' = pos + length l"
    define X where "X = split_from False r pos' (0xA # R)"
    have joined: "join newline L = l @ 0xA # R"
      using L L'ne by (simp add: R_def join_newline_Cons)
    have ps: "split_from False r pos (join newline L) = (l @ hd X) # tl X"
      unfolding joined X_def pos'_def by (rule split_prefix [OF gap nl])
    show ?thesis
    proof (cases "rmatch False r pos' (0xA # R) None")
      case (Cons a ms)
      obtain n c where "a = (n, c)" by (cases a)
      with Cons have m: "rmatch False r pos' (0xA # R) None = (n, c) # ms" by simp
      from split_newline_match [OF gap m] obtain w rest where
        Rw: "R = w @ 0xA # rest" and bw: "blank w"
        and X: "X = [] # split_from False r (pos' + n) rest"
        unfolding X_def by blast
      from line_boundary [OF L'ne nL' Rw [unfolded R_def] bw] obtain B L'' where
        L': "L' = B @ L''" and B: "B \<noteq> []" and bB: "\<forall>b \<in> set B. blank b"
        and L'': "L'' \<noteq> []" and rest: "rest = join newline L''"
        by blast
      from L' B L have shorter: "length L'' < length L" by (cases B) simp_all
      from L' nL' have nL'': "\<forall>x \<in> set L''. 0xA \<notin> set x" by simp
      from "1.IH" shorter L'' nL''
      have IH: "filter (\<lambda>ls. ls \<noteq> []) (map clean_lines (split_from False r (pos' + n) (join newline L'')))
           = paragraphs L''"
        by blast
      from ps X rest have pieces: "split_from False r pos (join newline L)
          = l # split_from False r (pos' + n) (join newline L'')"
        by simp
      show ?thesis
      proof (cases "blank l")
        case True
        with L L' bB have "paragraphs L = paragraphs L''"
          by (simp add: paragraphs_blank_Cons paragraphs_blank_append)
        with pieces IH True nl L show ?thesis
          by (simp add: clean_lines_line)
      next
        case False
        with L L' have "paragraphs L = [strip l] # paragraphs L''"
          using paragraphs_then_blank [OF False B bB] by simp
        with pieces IH False nl L show ?thesis
          by (simp add: clean_lines_line)
      qed
    next
      case Nil
      define Y where "Y = split_from False r (Suc pos') R"
      from split_newline_no_match [OF Nil] have X: "X = (0xA # hd Y) # tl Y"
        unfolding X_def Y_def .
      with ps have pieces: "split_from False r pos (join newline L) = (l @ 0xA # hd Y) # tl Y"
        by simp
      have head: "clean_lines (l @ 0xA # hd Y) = (if blank l then [] else [strip l]) @ clean_lines (hd Y)"
        by (rule clean_lines_append [OF nl])
      from Nil complete have norun: "0xA \<notin> set (takeWhile is_space R)"
        by blast
      from L have shorter: "length L' < length L" by simp
      from "1.IH" shorter L'ne nL'
      have IH1: "filter (\<lambda>ls. ls \<noteq> []) (map clean_lines Y) = paragraphs L'"
        and IH2: "\<not> blank (hd L') \<longrightarrow> clean_lines (hd Y) = hd (paragraphs L')
            \<and> filter (\<lambda>ls. ls \<noteq> []) (map clean_lines (tl Y)) = tl (paragraphs L')"
        unfolding Y_def R_def by blast+
      show ?thesis
      proof (cases "blank l1")
        case True
        have "L1 = []"
        proof (rule ccontr)
          assume "L1 \<noteq> []"
          from blank_line_run [OF True this] norun Cons show False
            by (simp add: R_def)
        qed
        with Cons have L'1: "L' = [l1]" by simp
        with nL' have "0xA \<notin> set l1" by simp
        then have "Y = [l1]"
          unfolding Y_def R_def L'1 using split_prefix [OF gap, of l1 "Suc pos'" "[]"] by simp
        with pieces head True \<open>0xA \<notin> set l1\<close> L L'1 show ?thesis
          by (simp add: clean_lines_line)
      next
        case False
        with Cons have nb: "\<not> blank (hd L')" by simp
        with IH2 have hY: "clean_lines (hd Y) = hd (paragraphs L')"
          and tY: "filter (\<lambda>ls. ls \<noteq> []) (map clean_lines (tl Y)) = tl (paragraphs L')"
          by simp_all
        from paragraphs_nonblank [OF False, of L1] Cons
        have pne: "paragraphs L' \<noteq> []" and hne: "hd (paragraphs L') \<noteq> []"
          by simp_all
        show ?thesis
        proof (cases "blank l")
          case True
          with L have "paragraphs L = paragraphs L'"
            by (simp add: paragraphs_blank_Cons)
          with pieces head hY tY pne hne True L show ?thesis
            by simp
        next
          case nbl: False
          from paragraphs_nonblank_nonblank [OF nbl False, of L1] L Cons
          have "paragraphs L = (strip l # hd (paragraphs L')) # tl (paragraphs L')"
            by simp
          with pieces head hY tY nbl L show ?thesis
            by simp
        qed
      qed
    qed
  qed
qed

subsection \<open>Collapsing runs of blank lines, and stripping the text\<close>

lemma split_on_join:
  "L \<noteq> [] \<Longrightarrow> \<forall>l \<in> set L. 0xA \<notin> set l \<Longrightarrow> split_on 0xA (join newline L) = L"
proof (induction L)
  case Nil
  then show ?case by simp
next
  case (Cons l L)
  show ?case
  proof (cases "L = []")
    case True
    with Cons.prems show ?thesis by (simp add: split_on_no_sep)
  next
    case False
    with Cons show ?thesis by (simp add: join_newline_Cons split_on_append)
  qed
qed

lemma paragraphs_Cons_cong:
  assumes "M \<noteq> []" and "M' \<noteq> []" and "hd M = hd M'" and "paragraphs M = paragraphs M'"
  shows "paragraphs (l # M) = paragraphs (l # M')"
proof -
  from assms(1) obtain m ms where M: "M = m # ms" by (cases M) auto
  from assms(2,3) M obtain ms' where M': "M' = m # ms'" by (cases M') auto
  from assms(4) show ?thesis unfolding M M' by simp
qed

lemma sub_prefix:
  assumes "gap_regex r" and "0xA \<notin> set l"
  shows "sub_from False r repl pos (l @ s) = l @ sub_from False r repl (pos + length l) s"
  using assms(2)
proof (induction l arbitrary: pos)
  case Nil
  then show ?case by simp
next
  case (Cons c l)
  then have c: "c \<noteq> 0xA" and l: "0xA \<notin> set l" by auto
  from c have "rmatch False r pos (c # l @ s) None = []"
    using gap_no_match [OF assms(1)] by simp
  with Cons.IH [OF l, of "Suc pos"] show ?case by simp
qed

lemma sub_lines:
  assumes gap: "gap_regex r" and "L \<noteq> []" and "\<forall>l \<in> set L. 0xA \<notin> set l"
  shows "\<exists>L2. sub_from False r (newline @ newline) pos (join newline L) = join newline L2
           \<and> L2 \<noteq> [] \<and> (\<forall>l \<in> set L2. 0xA \<notin> set l) \<and> hd L2 = hd L
           \<and> paragraphs L2 = paragraphs L"
  using assms(2,3)
proof (induction L arbitrary: pos rule: length_induct)
  case (1 L)
  from "1.prems"(1) obtain l L' where L: "L = l # L'" by (cases L) auto
  with "1.prems"(2) have nl: "0xA \<notin> set l" and nL': "\<forall>x \<in> set L'. 0xA \<notin> set x"
    by simp_all
  show ?case
  proof (cases L')
    case Nil
    have "rmatch False r (pos + length l) [] None = []"
      using gap_no_match [OF gap] by simp
    then have "sub_from False r (newline @ newline) pos (l @ []) = l"
      using sub_prefix [OF gap nl, of "newline @ newline" pos "[]"] by simp
    with L Nil nl have "sub_from False r (newline @ newline) pos (join newline L) = join newline L
        \<and> L \<noteq> [] \<and> (\<forall>l \<in> set L. 0xA \<notin> set l) \<and> hd L = hd L \<and> paragraphs L = paragraphs L"
      by simp
    then show ?thesis by blast
  next
    case (Cons l1 L1)
    then have L'ne: "L' \<noteq> []" by simp
    define R where "R = join newline L'"
    define pos' where "pos' = pos + length l"
    have joined: "join newline L = l @ 0xA # R"
      using L L'ne by (simp add: R_def join_newline_Cons)
    have pre: "sub_from False r (newline @ newline) pos (join newline L)
        = l @ sub_from False r (newline @ newline) pos' (0xA # R)"
      unfolding joined pos'_def by (rule sub_prefix [OF gap nl])
    show ?thesis
    proof (cases "rmatch False r pos' (0xA # R) None")
      case (Cons a ms)
      obtain n c where "a = (n, c)" by (cases a)
      with Cons have m: "rmatch False r pos' (0xA # R) None = (n, c) # ms" by simp
      from gap_match [OF gap m] obtain w rest where
        Rw: "R = w @ 0xA # rest" and bw: "blank w" and n: "n = length w + 2"
        by auto
      from Rw n have "drop (n - 1) R = rest" by simp
      with m n have step: "sub_from False r (newline @ newline) pos' (0xA # R)
          = 0xA # 0xA # sub_from False r (newline @ newline) (pos' + n) rest"
        by (simp add: newline_def)
      from line_boundary [OF L'ne nL' Rw [unfolded R_def] bw] obtain B L'' where
        L': "L' = B @ L''" and B: "B \<noteq> []" and bB: "\<forall>b \<in> set B. blank b"
        and L'': "L'' \<noteq> []" and rest: "rest = join newline L''"
        by blast
      from L' B L have shorter: "length L'' < length L" by (cases B) simp_all
      from L' nL' have nL'': "\<forall>x \<in> set L''. 0xA \<notin> set x" by simp
      from "1.IH" shorter L'' nL'' obtain K where
        K: "sub_from False r (newline @ newline) (pos' + n) (join newline L'') = join newline K"
        and Kne: "K \<noteq> []" and nK: "\<forall>l \<in> set K. 0xA \<notin> set l"
        and pK: "paragraphs K = paragraphs L''"
        by blast
      define L2 where "L2 = l # [] # K"
      have "join newline ([] # K) = 0xA # join newline K"
        using join_newline_Cons [OF Kne, of "[]"] by simp
      then have j: "join newline L2 = l @ 0xA # 0xA # join newline K"
        unfolding L2_def using join_newline_Cons [of "[] # K" l] by simp
      have "sub_from False r (newline @ newline) pos (join newline L) = join newline L2"
        unfolding j pre step rest K ..
      moreover have "L2 \<noteq> []" "hd L2 = hd L" by (simp_all add: L2_def L)
      moreover from nl nK have "\<forall>l \<in> set L2. 0xA \<notin> set l" by (simp add: L2_def)
      moreover have "paragraphs L2 = paragraphs L"
      proof (cases "blank l")
        case True
        with L L' bB pK show ?thesis
          by (simp add: L2_def paragraphs_blank_Cons paragraphs_blank_append)
      next
        case False
        from paragraphs_then_blank [OF False, of "[[]]" K] pK
        have "paragraphs L2 = [strip l] # paragraphs L''" by (simp add: L2_def)
        with L L' paragraphs_then_blank [OF False B bB, of L''] show ?thesis by simp
      qed
      ultimately show ?thesis by blast
    next
      case Nil
      then have step: "sub_from False r (newline @ newline) pos' (0xA # R)
          = 0xA # sub_from False r (newline @ newline) (Suc pos') R"
        by simp
      from L have shorter: "length L' < length L" by simp
      from "1.IH" shorter L'ne nL' obtain K where
        K: "sub_from False r (newline @ newline) (Suc pos') R = join newline K"
        and Kne: "K \<noteq> []" and nK: "\<forall>l \<in> set K. 0xA \<notin> set l"
        and hK: "hd K = hd L'" and pK: "paragraphs K = paragraphs L'"
        unfolding R_def by blast
      define L2 where "L2 = l # K"
      have j: "join newline L2 = l @ 0xA # join newline K"
        using Kne by (simp add: L2_def join_newline_Cons)
      have "sub_from False r (newline @ newline) pos (join newline L) = join newline L2"
        unfolding j pre step K ..
      moreover have "L2 \<noteq> []" "hd L2 = hd L" by (simp_all add: L2_def L)
      moreover from nl nK have "\<forall>l \<in> set L2. 0xA \<notin> set l" by (simp add: L2_def)
      moreover have "paragraphs L2 = paragraphs L"
        unfolding L2_def L by (rule paragraphs_Cons_cong [OF Kne L'ne hK pK])
      ultimately show ?thesis by blast
    qed
  qed
qed

lemma collapse_paragraphs:
  assumes "gap_regex r"
  shows "paragraphs (split_on 0xA (re_sub False r (newline @ newline) t))
           = paragraphs (split_on 0xA t)"
proof -
  have "split_on 0xA t \<noteq> []" by simp
  moreover have "\<forall>l \<in> set (split_on 0xA t). 0xA \<notin> set l"
    using split_on_lines by blast
  ultimately obtain L2 where
    "sub_from False r (newline @ newline) 0 (join newline (split_on 0xA t)) = join newline L2"
    and "L2 \<noteq> []" and "\<forall>l \<in> set L2. 0xA \<notin> set l"
    and "paragraphs L2 = paragraphs (split_on 0xA t)"
    using sub_lines [OF assms, of "split_on 0xA t" 0] by blast
  then show ?thesis
    by (simp add: re_sub_def join_split_on split_on_join)
qed

lemma paragraphs_strip_cong:
  "map strip L = map strip L' \<Longrightarrow> paragraphs L = paragraphs L'"
proof (induction L arbitrary: L' rule: paragraphs.induct)
  case 1
  then show ?case by simp
next
  case (2 l)
  then obtain l' where "L' = [l']" and "strip l = strip l'" by (cases L') auto
  moreover from this have "blank l \<longleftrightarrow> blank l'" by (metis strip_Nil_iff)
  ultimately show ?case by simp
next
  case (3 l l1 ls)
  from "3.prems" obtain l' l1' ls' where L': "L' = l' # l1' # ls'"
    and s: "strip l = strip l'" and s1: "strip l1 = strip l1'"
    and rest: "map strip (l1 # ls) = map strip (l1' # ls')"
    by (cases L'; cases "tl L'") auto
  from s have b: "blank l \<longleftrightarrow> blank l'" by (metis strip_Nil_iff)
  from s1 have b1: "blank l1 \<longleftrightarrow> blank l1'" by (metis strip_Nil_iff)
  have "paragraphs (l1 # ls) = paragraphs (l1' # ls')"
  proof (cases "blank l")
    case True
    from "3.IH"(1) [OF True rest] show ?thesis .
  next
    case False
    show ?thesis
    proof (cases "blank l1")
      case True
      from "3.IH"(2) [OF False True rest] show ?thesis .
    next
      case nb: False
      from "3.IH"(3) [OF False nb rest] show ?thesis .
    qed
  qed
  with b b1 s show ?case unfolding L' by (simp split: list.splits)
qed

lemma paragraphs_append_blank: "blank b \<Longrightarrow> paragraphs (L @ [b]) = paragraphs L"
proof (induction L rule: paragraphs.induct)
  case 1
  then show ?case by simp
next
  case (2 l)
  then show ?case by simp
next
  case (3 l l1 ls)
  then show ?case by simp
qed

lemma strip_leading: "is_space c \<Longrightarrow> strip (c # l) = strip l"
  by (simp add: strip_def)

lemma strip_trailing:
  assumes "is_space c"
  shows "strip (l @ [c]) = strip l"
proof (cases "blank l")
  case True
  with assms have "blank (l @ [c])" by simp
  with True show ?thesis by (metis strip_Nil_iff)
next
  case False
  then obtain x where "x \<in> set l" and "\<not> is_space x" by (auto simp: blank_def)
  then have "dropWhile is_space (l @ [c]) = dropWhile is_space l @ [c]"
    by (simp add: dropWhile_append1)
  with assms show ?thesis by (simp add: strip_def)
qed

lemma split_on_snoc_sep: "split_on sep (s @ [sep]) = split_on sep s @ [[]]"
  by (induction s) (auto split: list.splits)

lemma split_on_snoc:
  "c \<noteq> sep \<Longrightarrow> split_on sep (s @ [c])
     = butlast (split_on sep s) @ [last (split_on sep s) @ [c]]"
  by (induction s) (auto split: list.splits)

lemma paragraphs_leading_space:
  assumes "is_space c"
  shows "paragraphs (split_on 0xA (c # s)) = paragraphs (split_on 0xA s)"
proof (cases "c = 0xA")
  case True
  then show ?thesis by (simp add: paragraphs_blank_Cons)
next
  case False
  obtain p ps where sp: "split_on 0xA s = p # ps" by (cases "split_on 0xA s") auto
  with False have "split_on 0xA (c # s) = (c # p) # ps" by simp
  moreover have "map strip ((c # p) # ps) = map strip (p # ps)"
    using assms by (simp add: strip_leading)
  ultimately show ?thesis using sp paragraphs_strip_cong by metis
qed

lemma paragraphs_trailing_space:
  assumes "is_space c"
  shows "paragraphs (split_on 0xA (s @ [c])) = paragraphs (split_on 0xA s)"
proof (cases "c = 0xA")
  case True
  then show ?thesis by (simp add: split_on_snoc_sep paragraphs_append_blank)
next
  case False
  define L where "L = split_on 0xA s"
  have Lne: "L \<noteq> []" by (simp add: L_def)
  from False have "split_on 0xA (s @ [c]) = butlast L @ [last L @ [c]]"
    unfolding L_def by (rule split_on_snoc)
  moreover have "map strip (butlast L @ [last L @ [c]]) = map strip (butlast L @ [last L])"
    using assms by (simp add: strip_trailing)
  moreover from Lne have "butlast L @ [last L] = L" by simp
  ultimately show ?thesis using paragraphs_strip_cong unfolding L_def by metis
qed

lemma paragraphs_dropWhile:
  "paragraphs (split_on 0xA (dropWhile is_space s)) = paragraphs (split_on 0xA s)"
  by (induction s) (simp_all add: paragraphs_leading_space del: split_on.simps)

lemma paragraphs_trailing_run:
  "blank w \<Longrightarrow> paragraphs (split_on 0xA (s @ w)) = paragraphs (split_on 0xA s)"
proof (induction w rule: rev_induct)
  case Nil
  then show ?case by simp
next
  case (snoc c w)
  then have "is_space c" and "blank w" by simp_all
  from paragraphs_trailing_space [OF \<open>is_space c\<close>, of "s @ w"] snoc.IH [OF \<open>blank w\<close>]
  show ?case by simp
qed

lemma strip_paragraphs:
  "paragraphs (split_on 0xA (strip s)) = paragraphs (split_on 0xA s)"
proof -
  define t where "t = dropWhile is_space s"
  define w where "w = rev (takeWhile is_space (rev t))"
  have "blank w" by (auto simp: w_def blank_def dest: set_takeWhileD)
  moreover have "t = strip s @ w"
    unfolding strip_def w_def t_def
    by (metis rev_append rev_rev_ident takeWhile_dropWhile_id)
  ultimately have "paragraphs (split_on 0xA t) = paragraphs (split_on 0xA (strip s))"
    using paragraphs_trailing_run by metis
  then show ?thesis by (simp add: t_def paragraphs_dropWhile)
qed

subsection \<open>The segments of the code are the paragraphs of the text\<close>

lemma split_blocks_patterns:
  "split_blocks input_text = re_split False split_pattern
     (strip (re_sub False collapse_pattern (newline @ newline) (normalize_newlines input_text)))"
  unfolding split_blocks_def Let_def collapse_pattern_def split_pattern_def line_ending_subs ..

lemma segments_paragraphs: "segments input_text = spec_segments input_text"
proof -
  define t where "t = strip (re_sub False collapse_pattern (newline @ newline)
    (normalize_newlines input_text))"
  define L where "L = split_on 0xA t"
  have Lne: "L \<noteq> []" by (simp add: L_def)
  have nL: "\<forall>l \<in> set L. 0xA \<notin> set l" unfolding L_def using split_on_lines by blast
  have complete: "\<And>pos R. 0xA \<in> set (takeWhile is_space R)
      \<Longrightarrow> rmatch False split_pattern pos (0xA # R) None \<noteq> []"
    by (rule split_pattern_complete)
  have "segments input_text
      = filter (\<lambda>ls. ls \<noteq> []) (map clean_lines (split_from False split_pattern 0 (join newline L)))"
    by (simp add: segments_def split_blocks_patterns re_split_def t_def L_def join_split_on)
  also have "\<dots> = paragraphs L"
    using split_lines [OF gap_split_pattern complete Lne nL, of 0] by blast
  also have "\<dots> = spec_segments input_text"
    unfolding L_def t_def spec_segments_def
    by (simp add: strip_paragraphs collapse_paragraphs [OF gap_collapse_pattern])
  finally show ?thesis .
qed

subsection \<open>The re-merge loop\<close>

lemma length_remerge:
  "length (remerge_spec segs) =
     (case segs of [] \<Rightarrow> 0 | s # ss \<Rightarrow> Suc (length (filter name_marked ss)))"
proof (induction segs rule: remerge_spec.induct)
  case 1
  then show ?case by simp
next
  case (2 seg segs)
  have same: "filter name_marked (dropWhile (\<lambda>s. \<not> name_marked s) segs)
      = filter name_marked segs"
    by (induction segs) auto
  show ?case
  proof (cases "dropWhile (\<lambda>s. \<not> name_marked s) segs")
    case Nil
    then have r: "remerge_spec (dropWhile (\<lambda>s. \<not> name_marked s) segs) = []"
      by (simp only: remerge_spec.simps)
    from Nil same have f: "filter name_marked segs = []"
      by (simp only: filter.simps)
    show ?thesis by (simp add: r f)
  next
    case (Cons m rest)
    then have "dropWhile (\<lambda>s. \<not> name_marked s) segs \<noteq> []"
      by (simp only: list.distinct not_False_eq_True)
    from hd_dropWhile [OF this] Cons have m: "name_marked m"
      by (simp only: list.sel not_not)
    from Cons same have "filter name_marked segs = filter name_marked (m # rest)"
      by (simp only:)
    with m have f: "filter name_marked segs = m # filter name_marked rest"
      by simp
    from 2 Cons have r: "length (remerge_spec (dropWhile (\<lambda>s. \<not> name_marked s) segs))
        = Suc (length (filter name_marked rest))"
      by (simp only: list.case)
    show ?thesis by (simp add: r f)
  qed
qed

lemma merge_blocks_current:
  assumes "current_block \<noteq> []"
  shows "fst (merge_blocks blocks (customer_blocks, current_block))
           @ [join newline (snd (merge_blocks blocks (customer_blocks, current_block)))]
         = customer_blocks @ map (join newline)
             ((current_block
                 @ concat (takeWhile (\<lambda>s. \<not> name_marked s)
                     (filter (\<lambda>lines. lines \<noteq> []) (map clean_lines blocks))))
              # remerge_spec (dropWhile (\<lambda>s. \<not> name_marked s)
                     (filter (\<lambda>lines. lines \<noteq> []) (map clean_lines blocks))))
       \<and> snd (merge_blocks blocks (customer_blocks, current_block)) \<noteq> []"
  using assms
proof (induction blocks arbitrary: customer_blocks current_block)
  case Nil
  then show ?case by simp
next
  case (Cons block blocks)
  show ?case
  proof (cases "clean_lines block = []")
    case True
    with Cons show ?thesis by simp
  next
    case False
    show ?thesis
    proof (cases "name_marked (clean_lines block)")
      case True
      from Cons.IH [OF False, of "customer_blocks @ [join newline current_block]"]
        True False Cons.prems
      show ?thesis by (simp add: Let_def starts_with_name_iff)
    next
      case unmarked: False
      from Cons.prems have "current_block @ clean_lines block \<noteq> []" by simp
      from Cons.IH [OF this, of customer_blocks] unmarked False Cons.prems
      show ?thesis by (simp add: Let_def starts_with_name_iff)
    qed
  qed
qed

lemma merge_blocks_start:
  assumes "filter (\<lambda>lines. lines \<noteq> []) (map clean_lines blocks) = s # ss"
  shows "fst (merge_blocks blocks (customer_blocks, []))
           @ [join newline (snd (merge_blocks blocks (customer_blocks, [])))]
         = customer_blocks @ map (join newline) (remerge_spec (s # ss))
       \<and> snd (merge_blocks blocks (customer_blocks, [])) \<noteq> []"
  using assms
proof (induction blocks)
  case Nil
  then show ?case by simp
next
  case (Cons block blocks)
  show ?case
  proof (cases "clean_lines block = []")
    case True
    with Cons show ?thesis by simp
  next
    case False
    with Cons.prems have s: "clean_lines block = s"
      and ss: "filter (\<lambda>lines. lines \<noteq> []) (map clean_lines blocks) = ss"
      by simp_all
    from False s have "s \<noteq> []" by simp
    from merge_blocks_current [OF this, of blocks customer_blocks] False s ss
    show ?thesis by (simp add: Let_def)
  qed
qed

text \<open>
  C6. Cut the input into lines, CR-LF and CR counting as line feeds, and call a
  segment each maximal run of lines that are not blank. When the first segment is
  name-marked (one of its first two lines begins with a name marker, letter case
  ignored), the blocks that \<^verbatim>\<open>extract_customer_blocks\<close> returns are, in order, one
  for each name-marked segment: the lines of that segment followed by the lines of the
  segments after it up to the next name-marked one, joined by newlines. So there are
  exactly as many blocks as name-marked segments, and a segment without name marker
  never starts a block of its own.
\<close>

theorem segmenter_remerge:
  assumes "spec_segments input_text = s # ss" and "name_marked s"
  shows "extract_customer_blocks input_text = map (join newline) (remerge_spec (s # ss))
         \<and> length (extract_customer_blocks input_text)
             = length (filter name_marked (s # ss))"
proof -
  obtain customer_blocks current_block
    where mb: "merge_blocks (split_blocks input_text) ([], []) = (customer_blocks, current_block)"
    by (cases "merge_blocks (split_blocks input_text) ([], [])") blast
  from assms(1) have "segments input_text = s # ss"
    by (simp only: segments_paragraphs)
  then have "filter (\<lambda>lines. lines \<noteq> []) (map clean_lines (split_blocks input_text)) = s # ss"
    by (simp add: segments_def)
  from merge_blocks_start [OF this, of "[]"] mb
  have flush: "customer_blocks @ [join newline current_block] = map (join newline) (remerge_spec (s # ss))"
    and cur: "current_block \<noteq> []"
    by simp_all
  have blocks: "extract_customer_blocks input_text = customer_blocks @ [join newline current_block]"
    using cur by (simp add: extract_customer_blocks_def mb)
  have "length (remerge_spec (s # ss)) = Suc (length (filter name_marked ss))"
    by (simp only: length_remerge list.case)
  also have "\<dots> = length (filter name_marked (s # ss))"
    using assms(2) by simp
  finally have "length (map (join newline) (remerge_spec (s # ss)))
      = length (filter name_marked (s # ss))"
    by (simp only: length_map)
  with blocks flush show ?thesis by (simp only: simp_thms)
qed

lemma example_spec_segments:
  "spec_segments example_segments_input
     = [[asc ''nam A''], [asc ''x''], [asc ''foo'', asc ''Nam B'']]"
  by (simp add: spec_segments_def example_segments_input_def blank_def strip_def eval_chars)

lemma example_segments_marked:
  "name_marked [asc ''nam A'']"
  "\<not> name_marked [asc ''x'']"
  "name_marked [asc ''foo'', asc ''Nam B'']"
  by (simp_all add: name_marked_def begins_with_marker_def name_markers_def nam_bn_def
        apnar_nam_bn_def eval_chars)

theorem segmenter_remerge_witness:
  "spec_segments example_segments_input
     = [[asc ''nam A''], [asc ''x''], [asc ''foo'', asc ''Nam B'']]
   \<and> name_marked [asc ''nam A'']
   \<and> extract_customer_blocks example_segments_input
       = [join newline [asc ''nam A'', asc ''x''], join newline [asc ''foo'', asc ''Nam B'']]
   \<and> length (extract_customer_blocks example_segments_input) = 2"
proof -
  have r: "remerge_spec [[asc ''nam A''], [asc ''x''], [asc ''foo'', asc ''Nam B'']]
      = [[asc ''nam A'', asc ''x''], [asc ''foo'', asc ''Nam B'']]"
    by (simp add: example_segments_marked)
  from segmenter_remerge [OF example_spec_segments example_segments_marked(1)]
  have "extract_customer_blocks example_segments_input
       = [join newline [asc ''nam A'', asc ''x''], join newline [asc ''foo'', asc ''Nam B'']]"
    and "length (extract_customer_blocks example_segments_input) = 2"
    by (simp_all add: r example_segments_marked)
  with example_spec_segments example_segments_marked(1) show ?thesis by blast
qed


end
